theory Spec2Isabelle
  imports Main
begin

section \<open>Contact manager: fields, records and the address book\<close>

text \<open>
  The development follows \<^verbatim>\<open>hw7.py\<close>. Python's \<^verbatim>\<open>str\<close> is a sequence of code
  points; here a \<^typ>\<open>string\<close> stands for a Python string all of whose code points are
  below 256 (the Latin-1 block), one \<^typ>\<open>char\<close> per code point, so that
  \<^term>\<open>length\<close> is Python's \<^verbatim>\<open>len\<close>. Python's unbounded integers are \<^typ>\<open>int\<close>.
  A raised exception is a value \<open>Inl e\<close> of a sum type.
\<close>

datatype error = ValueError string | OverflowError string

subsection \<open>Strings\<close>

text \<open>
  \<^verbatim>\<open>str.isdigit\<close>: true iff the string is not empty and every character has the Unicode
  property Numeric\_Type = Digit or Decimal. Below code point 256 these are the ASCII
  digits and the superscripts U+00B2, U+00B3 and U+00B9.
\<close>

definition ascii_digit :: "char \<Rightarrow> bool" where
  "ascii_digit c = (48 \<le> (of_char c :: nat) \<and> (of_char c :: nat) \<le> 57)"

definition unicode_digit :: "char \<Rightarrow> bool" where
  "unicode_digit c =
     (ascii_digit c \<or> (of_char c :: nat) = 178 \<or> (of_char c :: nat) = 179
        \<or> (of_char c :: nat) = 185)"

definition isdigit :: "string \<Rightarrow> bool" where
  "isdigit s = (s \<noteq> [] \<and> list_all unicode_digit s)"

subsection \<open>Fields\<close>

record date =
  year :: int
  month :: int
  day :: int

text \<open>
  A field object is its value: two phones with the same text are the same phone. The
  value of a birthday is a \<^verbatim>\<open>datetime\<close> at midnight, of which the program only reads the
  date.
\<close>

datatype Name = Name (name_value: string)

datatype Phone = Phone (phone_value: string)

datatype Birthday = Birthday (birthday_value: date)

text \<open>What a caller may hand to \<^verbatim>\<open>add_phone\<close> and \<^verbatim>\<open>add_birthday\<close>: any field object.\<close>

datatype Field = NameField Name | PhoneField Phone | BirthdayField Birthday

text \<open>\<^verbatim>\<open>Field.__str__\<close> on a phone: \<^verbatim>\<open>str(self.value)\<close>.\<close>

definition str_Phone :: "Phone \<Rightarrow> string" where
  "str_Phone p = phone_value p"

text \<open>\<^verbatim>\<open>Phone.__init__\<close>\<close>

definition Phone_init :: "string \<Rightarrow> error + Phone" where
  "Phone_init v =
     (if \<not> isdigit v \<or> length v \<noteq> 10
      then Inl (ValueError ''Phone number must contain 10 digits.'')
      else Inr (Phone v))"

subsection \<open>Record\<close>

record Record =
  name :: Name
  phones :: "Phone list"
  birthday :: "Birthday option"

definition Record_init :: "string \<Rightarrow> Record" where
  "Record_init n = \<lparr>name = Name n, phones = [], birthday = None\<rparr>"

definition add_phone :: "Field \<Rightarrow> Record \<Rightarrow> error + Record" where
  "add_phone phone r =
     (case phone of
        PhoneField p \<Rightarrow> Inr (r\<lparr>phones := phones r @ [p]\<rparr>)
      | _ \<Rightarrow> Inl (ValueError ''Invalid phone value. Use Phone instance''))"

definition add_birthday :: "Field \<Rightarrow> Record \<Rightarrow> error + Record" where
  "add_birthday b r =
     (case b of
        BirthdayField x \<Rightarrow> Inr (r\<lparr>birthday := Some x\<rparr>)
      | _ \<Rightarrow> Inl (ValueError ''Invalid birthday value. Use Birthday instance''))"

definition remove_phone :: "string \<Rightarrow> Record \<Rightarrow> Record" where
  "remove_phone phone r = r\<lparr>phones := [p \<leftarrow> phones r. str_Phone p \<noteq> phone]\<rparr>"

text \<open>
  \<^verbatim>\<open>edit_phone\<close> changes the record in two steps, and the first has taken effect when
  the second raises: the result is the record after the call and the exception, if any.
\<close>

definition edit_phone :: "string \<Rightarrow> Field \<Rightarrow> Record \<Rightarrow> Record \<times> error option" where
  "edit_phone old_phone new_phone r =
     (let r' = remove_phone old_phone r
      in case add_phone new_phone r' of
           Inl e \<Rightarrow> (r', Some e)
         | Inr r'' \<Rightarrow> (r'', None))"

fun find_phone_loop :: "string \<Rightarrow> Phone list \<Rightarrow> Phone option" where
  "find_phone_loop phone [] = None"
| "find_phone_loop phone (p # ps) =
     (if str_Phone p = phone then Some p else find_phone_loop phone ps)"

definition find_phone :: "string \<Rightarrow> Record \<Rightarrow> Phone option" where
  "find_phone phone r = find_phone_loop phone (phones r)"

subsection \<open>AddressBook\<close>

text \<open>
  \<^verbatim>\<open>UserDict.data\<close> is a dict; a dict iterates in insertion order, assigning to a key
  that is present keeps its place, and a new key goes to the end. The model is the list
  of its items in that order.
\<close>

type_synonym AddressBook = "(string \<times> Record) list"

fun dict_setitem :: "'k \<Rightarrow> 'v \<Rightarrow> ('k \<times> 'v) list \<Rightarrow> ('k \<times> 'v) list" where
  "dict_setitem k v [] = [(k, v)]"
| "dict_setitem k v ((k', v') # kvs) =
     (if k' = k then (k, v) # kvs else (k', v') # dict_setitem k v kvs)"

fun dict_get :: "'k \<Rightarrow> ('k \<times> 'v) list \<Rightarrow> 'v option" where
  "dict_get k [] = None"
| "dict_get k ((k', v') # kvs) = (if k' = k then Some v' else dict_get k kvs)"

fun dict_contains :: "'k \<Rightarrow> ('k \<times> 'v) list \<Rightarrow> bool" where
  "dict_contains k [] = False"
| "dict_contains k ((k', v') # kvs) = (k' = k \<or> dict_contains k kvs)"

fun dict_delitem :: "'k \<Rightarrow> ('k \<times> 'v) list \<Rightarrow> ('k \<times> 'v) list" where
  "dict_delitem k [] = []"
| "dict_delitem k ((k', v') # kvs) =
     (if k' = k then kvs else (k', v') # dict_delitem k kvs)"

definition dict_values :: "('k \<times> 'v) list \<Rightarrow> 'v list" where
  "dict_values kvs = map snd kvs"

text \<open>A dict holds each key once; every operation below keeps it so.\<close>

definition dict_ok :: "('k \<times> 'v) list \<Rightarrow> bool" where
  "dict_ok kvs = distinct (map fst kvs)"

definition add_record :: "Record \<Rightarrow> AddressBook \<Rightarrow> AddressBook" where
  "add_record r book = dict_setitem (name_value (name r)) r book"

definition find_book :: "string \<Rightarrow> AddressBook \<Rightarrow> Record option" where
  "find_book n book = dict_get n book"

definition delete :: "string \<Rightarrow> AddressBook \<Rightarrow> AddressBook" where
  "delete n book = (if dict_contains n book then dict_delitem n book else book)"

section \<open>Dates: the part of the standard library the program calls\<close>

text \<open>
  \<^verbatim>\<open>datetime.date\<close> as the library computes it (\<^verbatim>\<open>_pydatetime.py\<close>; the C module runs
  the same algorithms). Python's \<^verbatim>\<open>//\<close> and \<^verbatim>\<open>%\<close> round towards minus infinity, as
  \<^term>\<open>(div)\<close> and \<^term>\<open>(mod)\<close> on \<^typ>\<open>int\<close> do. The tables are indexed by the month;
  the library only reads them at an index from 1 to 12.
\<close>

definition MAXORDINAL :: int where
  "MAXORDINAL = 3652059"

definition DAYS_IN_MONTH :: "int list" where
  "DAYS_IN_MONTH = [-1, 31, 28, 31, 30, 31, 30, 31, 31, 30, 31, 30, 31]"

definition DAYS_BEFORE_MONTH :: "int list" where
  "DAYS_BEFORE_MONTH = [-1, 0, 31, 59, 90, 120, 151, 181, 212, 243, 273, 304, 334]"

definition is_leap :: "int \<Rightarrow> bool" where
  "is_leap y = (y mod 4 = 0 \<and> (y mod 100 \<noteq> 0 \<or> y mod 400 = 0))"

definition days_before_year :: "int \<Rightarrow> int" where
  "days_before_year yr = (let y = yr - 1 in y * 365 + y div 4 - y div 100 + y div 400)"

definition days_in_month :: "int \<Rightarrow> int \<Rightarrow> int" where
  "days_in_month y m = (if m = 2 \<and> is_leap y then 29 else DAYS_IN_MONTH ! nat m)"

definition days_before_month :: "int \<Rightarrow> int \<Rightarrow> int" where
  "days_before_month y m =
     DAYS_BEFORE_MONTH ! nat m + (if m > 2 \<and> is_leap y then 1 else 0)"

definition ymd2ord :: "int \<Rightarrow> int \<Rightarrow> int \<Rightarrow> int" where
  "ymd2ord y m d = days_before_year y + days_before_month y m + d"

definition DI400Y :: int where "DI400Y = days_before_year 401"
definition DI100Y :: int where "DI100Y = days_before_year 101"
definition DI4Y :: int where "DI4Y = days_before_year 5"

definition ord2ymd :: "int \<Rightarrow> int \<times> int \<times> int" where
  "ord2ymd n0 =
     (let n = n0 - 1;
          n400 = n div DI400Y; n = n mod DI400Y;
          yr = n400 * 400 + 1;
          n100 = n div DI100Y; n = n mod DI100Y;
          n4 = n div DI4Y; n = n mod DI4Y;
          n1 = n div 365; n = n mod 365;
          yr = yr + (n100 * 100 + n4 * 4 + n1)
      in if n1 = 4 \<or> n100 = 4 then (yr - 1, 12, 31)
         else
           let leapyear = (n1 = 3 \<and> (n4 \<noteq> 24 \<or> n100 = 3));
               mo = (n + 50) div 32;
               preceding = DAYS_BEFORE_MONTH ! nat mo + (if mo > 2 \<and> leapyear then 1 else 0);
               (mo, preceding) =
                 (if preceding > n
                  then (mo - 1,
                        preceding - (DAYS_IN_MONTH ! nat (mo - 1)
                                      + (if mo - 1 = 2 \<and> leapyear then 1 else 0)))
                  else (mo, preceding));
               n = n - preceding
           in (yr, mo, n + 1))"

text \<open>
  \<^verbatim>\<open>_check_date_fields\<close> and the constructor \<^verbatim>\<open>date(year, month, day)\<close>. The messages
  of the library's exceptions are shortened; the program replaces or drops them.
\<close>

definition check_date_fields :: "int \<Rightarrow> int \<Rightarrow> int \<Rightarrow> error + (int \<times> int \<times> int)" where
  "check_date_fields y m d =
     (if \<not> (1 \<le> y \<and> y \<le> 9999) then Inl (ValueError ''year must be in 1..9999'')
      else if \<not> (1 \<le> m \<and> m \<le> 12) then Inl (ValueError ''month must be in 1..12'')
      else if \<not> (1 \<le> d \<and> d \<le> days_in_month y m)
        then Inl (ValueError ''day is out of range for month'')
      else Inr (y, m, d))"

definition date_new :: "int \<Rightarrow> int \<Rightarrow> int \<Rightarrow> error + date" where
  "date_new y m d =
     (case check_date_fields y m d of
        Inl e \<Rightarrow> Inl e
      | Inr (y', m', d') \<Rightarrow> Inr \<lparr>year = y', month = m', day = d'\<rparr>)"

text \<open>\<^verbatim>\<open>date.replace(year=y)\<close>\<close>

definition replace_year :: "date \<Rightarrow> int \<Rightarrow> error + date" where
  "replace_year dt y = date_new y (month dt) (day dt)"

definition toordinal :: "date \<Rightarrow> int" where
  "toordinal dt = ymd2ord (year dt) (month dt) (day dt)"

definition fromordinal :: "int \<Rightarrow> error + date" where
  "fromordinal n = (case ord2ymd n of (y, m, d) \<Rightarrow> date_new y m d)"

definition weekday :: "date \<Rightarrow> int" where
  "weekday dt = (toordinal dt + 6) mod 7"

text \<open>\<^verbatim>\<open>date.__lt__\<close>: the tuples (year, month, day) compared.\<close>

definition date_lt :: "date \<Rightarrow> date \<Rightarrow> bool" where
  "date_lt a b =
     (year a < year b \<or> (year a = year b \<and>
        (month a < month b \<or> (month a = month b \<and> day a < day b))))"

text \<open>\<^verbatim>\<open>(a - b).days\<close> for two dates.\<close>

definition date_sub_days :: "date \<Rightarrow> date \<Rightarrow> int" where
  "date_sub_days a b = toordinal a - toordinal b"

text \<open>\<^verbatim>\<open>dt + timedelta(days=n)\<close>\<close>

definition date_add_days :: "date \<Rightarrow> int \<Rightarrow> error + date" where
  "date_add_days dt n =
     (let ord = toordinal dt + n
      in if 0 < ord \<and> ord \<le> MAXORDINAL then fromordinal ord
         else Inl (OverflowError ''date value out of range''))"

subsection \<open>Formatting with \<^verbatim>\<open>%d.%m.%Y\<close>\<close>

text \<open>
  \<^verbatim>\<open>strftime\<close> hands the format to the C library of the platform. \<^verbatim>\<open>%d\<close> and \<^verbatim>\<open>%m\<close>
  are decimal numbers padded with zeros to two places everywhere. \<^verbatim>\<open>%Y\<close> is the year
  as a decimal number: the C libraries of Windows and macOS pad it with zeros to four
  places (0001, ..., 9999, as the library's documentation shows it), glibc does not pad
  it (1, ..., 9999). The argument \<open>padded\<close> says which C library the program runs on.
\<close>

definition digit_char :: "nat \<Rightarrow> char" where
  "digit_char n = char_of (48 + n)"

fun decimal :: "nat \<Rightarrow> string" where
  "decimal n = (if n < 10 then [digit_char n] else decimal (n div 10) @ [digit_char (n mod 10)])"

declare decimal.simps [simp del]

definition zero_pad :: "nat \<Rightarrow> int \<Rightarrow> string" where
  "zero_pad w n = (let s = decimal (nat n) in replicate (w - length s) (CHR ''0'') @ s)"

definition strftime_Y :: "bool \<Rightarrow> int \<Rightarrow> string" where
  "strftime_Y padded y = (if padded then zero_pad 4 y else decimal (nat y))"

definition strftime_dmY :: "bool \<Rightarrow> date \<Rightarrow> string" where
  "strftime_dmY padded dt =
     zero_pad 2 (day dt) @ ''.'' @ zero_pad 2 (month dt) @ ''.'' @ strftime_Y padded (year dt)"

subsection \<open>Parsing with \<^verbatim>\<open>%d.%m.%Y\<close>\<close>

text \<open>
  \<^verbatim>\<open>_strptime\<close> turns the format into the regular expression
  \<^verbatim>\<open>(?P<d>3[0-1]|[1-2]\d|0[1-9]|[1-9]| [1-9])\.(?P<m>1[0-2]|0[1-9]|[1-9])\.(?P<Y>\d\d\d\d)\<close>,
  matches it at the start of the input, refuses input left over after the match, and
  builds the date from the integers of the three groups. A matcher returns the ways it
  can match a prefix of its input, in the order in which the backtracking search tries
  them, each with the group's text and the input that is left. This is the parser on
  texts of characters below code point 256, where \<^verbatim>\<open>\d\<close> is an ASCII digit; the parser
  on texts of any code points follows it.
\<close>

definition chr_in :: "char \<Rightarrow> nat \<Rightarrow> nat \<Rightarrow> bool" where
  "chr_in c lo hi = (lo \<le> (of_char c :: nat) \<and> (of_char c :: nat) \<le> hi)"

definition alt2 :: "('a \<Rightarrow> bool) \<Rightarrow> ('a \<Rightarrow> bool) \<Rightarrow> 'a list \<Rightarrow> ('a list \<times> 'a list) list" where
  "alt2 p q s =
     (case s of a # b # r \<Rightarrow> (if p a \<and> q b then [([a, b], r)] else []) | _ \<Rightarrow> [])"

definition alt1 :: "('a \<Rightarrow> bool) \<Rightarrow> 'a list \<Rightarrow> ('a list \<times> 'a list) list" where
  "alt1 p s = (case s of a # r \<Rightarrow> (if p a then [([a], r)] else []) | _ \<Rightarrow> [])"

definition match_d :: "string \<Rightarrow> (string \<times> string) list" where
  "match_d s =
     alt2 (\<lambda>c. c = CHR ''3'') (\<lambda>c. chr_in c 48 49) s
     @ alt2 (\<lambda>c. chr_in c 49 50) ascii_digit s
     @ alt2 (\<lambda>c. c = CHR ''0'') (\<lambda>c. chr_in c 49 57) s
     @ alt1 (\<lambda>c. chr_in c 49 57) s
     @ alt2 (\<lambda>c. c = CHR '' '') (\<lambda>c. chr_in c 49 57) s"

definition match_m :: "string \<Rightarrow> (string \<times> string) list" where
  "match_m s =
     alt2 (\<lambda>c. c = CHR ''1'') (\<lambda>c. chr_in c 48 50) s
     @ alt2 (\<lambda>c. c = CHR ''0'') (\<lambda>c. chr_in c 49 57) s
     @ alt1 (\<lambda>c. chr_in c 49 57) s"

definition match_Y :: "string \<Rightarrow> (string \<times> string) list" where
  "match_Y s =
     (case s of a # b # c # d # r \<Rightarrow>
        (if ascii_digit a \<and> ascii_digit b \<and> ascii_digit c \<and> ascii_digit d
         then [([a, b, c, d], r)] else [])
      | _ \<Rightarrow> [])"

definition match_dot :: "string \<Rightarrow> string list" where
  "match_dot s = (case s of a # r \<Rightarrow> (if a = CHR ''.'' then [r] else []) | _ \<Rightarrow> [])"

definition regex_matches :: "string \<Rightarrow> ((string \<times> string \<times> string) \<times> string) list" where
  "regex_matches s =
     [((d, m, y), r5).
        (d, r1) \<leftarrow> match_d s, r2 \<leftarrow> match_dot r1,
        (m, r3) \<leftarrow> match_m r2, r4 \<leftarrow> match_dot r3,
        (y, r5) \<leftarrow> match_Y r4]"

text \<open>
  \<^verbatim>\<open>int(text)\<close> on the text of a group: ASCII digits, after a blank in the one
  alternative of the day that has it (\<^verbatim>\<open>int\<close> skips surrounding blanks).
\<close>

definition digit_value :: "char \<Rightarrow> int" where
  "digit_value c = int (of_char c) - 48"

definition py_int :: "string \<Rightarrow> int" where
  "py_int s = foldl (\<lambda>a c. 10 * a + digit_value c) 0 (dropWhile (\<lambda>c. c = CHR '' '') s)"

definition strptime_dmY :: "string \<Rightarrow> error + date" where
  "strptime_dmY data_string =
     (case regex_matches data_string of
        [] \<Rightarrow> Inl (ValueError ''time data does not match format'')
      | ((d, m, y), rest) # _ \<Rightarrow>
          if rest \<noteq> [] then Inl (ValueError ''unconverted data remains'')
          else date_new (py_int y) (py_int m) (py_int d))"

text \<open>
  \<^verbatim>\<open>Birthday.__init__\<close>: every \<^verbatim>\<open>ValueError\<close> of the parser is replaced by the
  program's own. The stored value is a \<^verbatim>\<open>datetime\<close> at midnight; the program only ever
  reads its date.
\<close>

definition Birthday_init :: "string \<Rightarrow> error + Birthday" where
  "Birthday_init v =
     (case strptime_dmY v of
        Inl (ValueError _) \<Rightarrow> Inl (ValueError ''Invalid date format. Use DD.MM.YYYY'')
      | Inl e \<Rightarrow> Inl e
      | Inr dt \<Rightarrow> Inr (Birthday dt))"

subsection \<open>Parsing a text of any code points\<close>

text \<open>
  A Python string is a sequence of Unicode code points, and two steps of the parser look
  beyond ASCII: in the regular expression \<^verbatim>\<open>\d\<close> matches every character of the
  category Nd (decimal digit), and \<^verbatim>\<open>int\<close> reads every such character as its digit.
  The ranges \<^verbatim>\<open>[0-1]\<close>, \<^verbatim>\<open>[1-2]\<close>, \<^verbatim>\<open>[0-2]\<close>, \<^verbatim>\<open>[1-9]\<close> and the literal
  characters match ASCII only. Here a text is the list of its code points. The
  characters of the category Nd come in runs of ten consecutive code points with the
  values 0 to 9, and \<open>zs\<close> lists the code points that start a run: 48 for the ASCII
  digits, 1632 for the Arabic-Indic digits, 65296 for the fullwidth digits, and so on.
  The table grows with the version of the Unicode database, so the parser takes it as
  an argument.
\<close>

type_synonym ustr = "nat list"

definition code_points :: "string \<Rightarrow> ustr" where
  "code_points s = map of_char s"

definition nd_value :: "nat list \<Rightarrow> nat \<Rightarrow> nat option" where
  "nd_value zs c =
     (case filter (\<lambda>z. z \<le> c \<and> c \<le> z + 9) zs of [] \<Rightarrow> None | z # _ \<Rightarrow> Some (c - z))"

definition is_nd :: "nat list \<Rightarrow> nat \<Rightarrow> bool" where
  "is_nd zs c = (nd_value zs c \<noteq> None)"

text \<open>The ASCII digits are a run of the table and no other run reaches into them.\<close>

definition ascii_table :: "nat list \<Rightarrow> bool" where
  "ascii_table zs = (List.member zs 48 \<and> list_all (\<lambda>z. z = 48 \<or> 57 < z) zs)"

text \<open>Below code point 256 the ASCII digits are the only decimal digits.\<close>

definition latin1_table :: "nat list \<Rightarrow> bool" where
  "latin1_table zs = (List.member zs 48 \<and> list_all (\<lambda>z. z = 48 \<or> 256 \<le> z) zs)"

text \<open>The table of Unicode 14.0.0, the database of Python 3.11.\<close>

definition nd_zeros :: "nat list" where
  "nd_zeros =
     [48, 1632, 1776, 1984, 2406, 2534, 2662, 2790, 2918, 3046, 3174, 3302, 3430, 3558,
      3664, 3792, 3872, 4160, 4240, 6112, 6160, 6470, 6608, 6784, 6800, 6992, 7088, 7232,
      7248, 42528, 43216, 43264, 43472, 43504, 43600, 44016, 65296, 66720, 68912, 69734,
      69872, 69942, 70096, 70384, 70736, 70864, 71248, 71360, 71472, 71904, 72016, 72784,
      73040, 73120, 92768, 92864, 93008, 120782, 120792, 120802, 120812, 120822, 123200,
      123632, 125264, 130032]"

definition cp_in :: "nat \<Rightarrow> nat \<Rightarrow> nat \<Rightarrow> bool" where
  "cp_in c lo hi = (lo \<le> c \<and> c \<le> hi)"

definition u_match_d :: "nat list \<Rightarrow> ustr \<Rightarrow> (ustr \<times> ustr) list" where
  "u_match_d zs s =
     alt2 (\<lambda>c. c = 51) (\<lambda>c. cp_in c 48 49) s
     @ alt2 (\<lambda>c. cp_in c 49 50) (is_nd zs) s
     @ alt2 (\<lambda>c. c = 48) (\<lambda>c. cp_in c 49 57) s
     @ alt1 (\<lambda>c. cp_in c 49 57) s
     @ alt2 (\<lambda>c. c = 32) (\<lambda>c. cp_in c 49 57) s"

definition u_match_m :: "ustr \<Rightarrow> (ustr \<times> ustr) list" where
  "u_match_m s =
     alt2 (\<lambda>c. c = 49) (\<lambda>c. cp_in c 48 50) s
     @ alt2 (\<lambda>c. c = 48) (\<lambda>c. cp_in c 49 57) s
     @ alt1 (\<lambda>c. cp_in c 49 57) s"

definition u_match_Y :: "nat list \<Rightarrow> ustr \<Rightarrow> (ustr \<times> ustr) list" where
  "u_match_Y zs s =
     (case s of a # b # c # d # r \<Rightarrow>
        (if is_nd zs a \<and> is_nd zs b \<and> is_nd zs c \<and> is_nd zs d
         then [([a, b, c, d], r)] else [])
      | _ \<Rightarrow> [])"

definition u_match_dot :: "ustr \<Rightarrow> ustr list" where
  "u_match_dot s = (case s of a # r \<Rightarrow> (if a = 46 then [r] else []) | _ \<Rightarrow> [])"

definition u_regex_matches :: "nat list \<Rightarrow> ustr \<Rightarrow> ((ustr \<times> ustr \<times> ustr) \<times> ustr) list" where
  "u_regex_matches zs s =
     [((d, m, y), r5).
        (d, r1) \<leftarrow> u_match_d zs s, r2 \<leftarrow> u_match_dot r1,
        (m, r3) \<leftarrow> u_match_m r2, r4 \<leftarrow> u_match_dot r3,
        (y, r5) \<leftarrow> u_match_Y zs r4]"

text \<open>
  \<^verbatim>\<open>int(text)\<close> on the text of a group: decimal digits of any script, after a blank in
  the one alternative of the day that has it.
\<close>

definition u_digit_value :: "nat list \<Rightarrow> nat \<Rightarrow> int" where
  "u_digit_value zs c = (case nd_value zs c of Some v \<Rightarrow> int v | None \<Rightarrow> 0)"

definition u_py_int :: "nat list \<Rightarrow> ustr \<Rightarrow> int" where
  "u_py_int zs s =
     foldl (\<lambda>a c. 10 * a + u_digit_value zs c) 0 (dropWhile (\<lambda>c. c = 32) s)"

definition u_strptime_dmY :: "nat list \<Rightarrow> ustr \<Rightarrow> error + date" where
  "u_strptime_dmY zs data_string =
     (case u_regex_matches zs data_string of
        [] \<Rightarrow> Inl (ValueError ''time data does not match format'')
      | ((d, m, y), rest) # _ \<Rightarrow>
          if rest \<noteq> [] then Inl (ValueError ''unconverted data remains'')
          else date_new (u_py_int zs y) (u_py_int zs m) (u_py_int zs d))"

text \<open>
  \<^verbatim>\<open>Birthday.__init__\<close> on a text of any code points. On a text of characters below code
  point 256 it is \<open>Birthday_init\<close>.
\<close>

definition u_Birthday_init :: "nat list \<Rightarrow> ustr \<Rightarrow> error + Birthday" where
  "u_Birthday_init zs v =
     (case u_strptime_dmY zs v of
        Inl (ValueError _) \<Rightarrow> Inl (ValueError ''Invalid date format. Use DD.MM.YYYY'')
      | Inl e \<Rightarrow> Inl e
      | Inr dt \<Rightarrow> Inr (Birthday dt))"

text \<open>
  The texts the parser takes for the day, the month and the year, in words: a day is
  one ASCII digit, a blank and an ASCII digit, two ASCII digits, or a 1 or a 2 and a
  decimal digit of any script; a month is one or two ASCII digits; a year is four
  decimal digits of any script.
\<close>

definition u_day_text :: "nat list \<Rightarrow> ustr \<Rightarrow> bool" where
  "u_day_text zs t =
     (case t of
        [a] \<Rightarrow> cp_in a 48 57
      | [a, b] \<Rightarrow> (a = 32 \<and> cp_in b 48 57) \<or> (cp_in a 48 57 \<and> cp_in b 48 57)
                   \<or> (cp_in a 49 50 \<and> is_nd zs b)
      | _ \<Rightarrow> False)"

definition u_month_text :: "ustr \<Rightarrow> bool" where
  "u_month_text t =
     (case t of [a] \<Rightarrow> cp_in a 48 57 | [a, b] \<Rightarrow> cp_in a 48 57 \<and> cp_in b 48 57 | _ \<Rightarrow> False)"

definition u_year_text :: "nat list \<Rightarrow> ustr \<Rightarrow> bool" where
  "u_year_text zs t = (length t = 4 \<and> list_all (is_nd zs) t)"

subsection \<open>Rendering a record\<close>

fun join :: "string \<Rightarrow> string list \<Rightarrow> string" where
  "join sep [] = []"
| "join sep [x] = x"
| "join sep (x # y # ys) = x @ sep @ join sep (y # ys)"

definition Record_str :: "bool \<Rightarrow> Record \<Rightarrow> string" where
  "Record_str padded r =
     (let phones_str = join ''; '' (map str_Phone (phones r));
          birthday_str = (case birthday r of
                            Some b \<Rightarrow> strftime_dmY padded (birthday_value b)
                          | None \<Rightarrow> ''Not Set'')
      in ''Contact name: '' @ name_value (name r) @ '', phones: '' @ phones_str
           @ '', birthday: '' @ birthday_str)"

section \<open>Upcoming birthdays\<close>

text \<open>
  One entry of the result, the dict with the keys \<^verbatim>\<open>name\<close> and
  \<^verbatim>\<open>congradulation_date\<close> (the first is \<open>contact_name\<close> here, \<open>name\<close> being the record's
  field).
\<close>

record congratulation =
  contact_name :: string
  congradulation_date :: string

text \<open>Lines 81 to 84: the birthday moved to this year, or to the next when it has passed.\<close>

definition birthday_this_year :: "date \<Rightarrow> date \<Rightarrow> error + date" where
  "birthday_this_year today birthday_date =
     (case replace_year birthday_date (year today) of
        Inl e \<Rightarrow> Inl e
      | Inr bty \<Rightarrow>
          if date_lt bty today then replace_year bty (year today + 1) else Inr bty)"

text \<open>Lines 90 to 94: the date of the greeting, as text.\<close>

definition congradulation :: "bool \<Rightarrow> date \<Rightarrow> error + string" where
  "congradulation padded bty =
     (if weekday bty = 5 \<or> weekday bty = 6
      then (case date_add_days bty (7 - weekday bty) of
              Inl e \<Rightarrow> Inl e
            | Inr monday_after_birthday \<Rightarrow> Inr (strftime_dmY padded monday_after_birthday))
      else Inr (strftime_dmY padded bty))"

text \<open>The body of the loop for one record, with the list built so far.\<close>

definition upcoming_step ::
  "bool \<Rightarrow> date \<Rightarrow> Record \<Rightarrow> congratulation list \<Rightarrow> error + congratulation list" where
  "upcoming_step padded today r upcoming_birthdays =
     (case birthday r of
        None \<Rightarrow> Inr upcoming_birthdays
      | Some b \<Rightarrow>
          (case birthday_this_year today (birthday_value b) of
             Inl e \<Rightarrow> Inl e
           | Inr bty \<Rightarrow>
               let days_until_birthday = date_sub_days bty today
               in if 0 \<le> days_until_birthday \<and> days_until_birthday \<le> 7
                  then (case congradulation padded bty of
                          Inl e \<Rightarrow> Inl e
                        | Inr c \<Rightarrow>
                            Inr (upcoming_birthdays
                                 @ [\<lparr>contact_name = name_value (name r),
                                      congradulation_date = c\<rparr>]))
                  else Inr upcoming_birthdays))"

fun upcoming_loop ::
  "bool \<Rightarrow> date \<Rightarrow> Record list \<Rightarrow> congratulation list \<Rightarrow> error + congratulation list" where
  "upcoming_loop padded today [] acc = Inr acc"
| "upcoming_loop padded today (r # rs) acc =
     (case upcoming_step padded today r acc of
        Inl e \<Rightarrow> Inl e
      | Inr acc' \<Rightarrow> upcoming_loop padded today rs acc')"

text \<open>
  \<^verbatim>\<open>get_upcoming_birthdays\<close>; the date of the system clock is the argument \<open>today\<close>.
\<close>

definition get_upcoming_birthdays ::
  "bool \<Rightarrow> date \<Rightarrow> AddressBook \<Rightarrow> error + congratulation list" where
  "get_upcoming_birthdays padded today book = upcoming_loop padded today (dict_values book) []"

section \<open>The \<^verbatim>\<open>add\<close> command\<close>

text \<open>
  Lines 183 to 190 of \<^verbatim>\<open>main\<close>: the new book and the line printed.
\<close>

definition error_text :: "error \<Rightarrow> string" where
  "error_text e = (case e of ValueError m \<Rightarrow> m | OverflowError m \<Rightarrow> m)"

definition main_add :: "string \<Rightarrow> string \<Rightarrow> AddressBook \<Rightarrow> AddressBook \<times> string" where
  "main_add n phone book =
     (let record = Record_init n
      in case Phone_init phone of
           Inl e \<Rightarrow> (book, error_text e)
         | Inr p \<Rightarrow>
             (case add_phone (PhoneField p) record of
                Inl e \<Rightarrow> (book, error_text e)
              | Inr record' \<Rightarrow>
                  (add_record record' book,
                   ''Contact '' @ n @ '' with phone '' @ phone @ '' added.'')))"

section \<open>Predicates used in the statements\<close>

text \<open>
  What \<^verbatim>\<open>_check_date_fields\<close> lets through: the dates a \<^verbatim>\<open>date\<close> object can hold.
\<close>

definition valid_date :: "date \<Rightarrow> bool" where
  "valid_date dt =
     (1 \<le> year dt \<and> year dt \<le> 9999 \<and> 1 \<le> month dt \<and> month dt \<le> 12
      \<and> 1 \<le> day dt \<and> day dt \<le> days_in_month (year dt) (month dt))"

text \<open>
  The specification's words. A text in the format DD.MM.YYYY: two digits, a dot, two
  digits, a dot, four digits. A real calendar date: a year from 1 on, a month from 1 to
  12, a day from 1 to the length of that month in that year.
\<close>

definition matches_DD_MM_YYYY :: "string \<Rightarrow> bool" where
  "matches_DD_MM_YYYY s =
     (case s of
        [d1, d2, p, m1, m2, q, y1, y2, y3, y4] \<Rightarrow>
          ascii_digit d1 \<and> ascii_digit d2 \<and> p = CHR ''.'' \<and> ascii_digit m1 \<and> ascii_digit m2
          \<and> q = CHR ''.'' \<and> ascii_digit y1 \<and> ascii_digit y2 \<and> ascii_digit y3 \<and> ascii_digit y4
      | _ \<Rightarrow> False)"

definition real_calendar_date :: "int \<Rightarrow> int \<Rightarrow> int \<Rightarrow> bool" where
  "real_calendar_date y m d =
     (1 \<le> y \<and> 1 \<le> m \<and> m \<le> 12 \<and> 1 \<le> d
      \<and> d \<le> (if m = 2 then (if y mod 4 = 0 \<and> (y mod 100 \<noteq> 0 \<or> y mod 400 = 0) then 29 else 28)
              else if m = 4 \<or> m = 6 \<or> m = 9 \<or> m = 11 then 30 else 31))"

text \<open>The numbers written in a text of the format DD.MM.YYYY.\<close>

definition day_of_text :: "string \<Rightarrow> int" where
  "day_of_text s = py_int (take 2 s)"

definition month_of_text :: "string \<Rightarrow> int" where
  "month_of_text s = py_int (take 2 (drop 3 s))"

definition year_of_text :: "string \<Rightarrow> int" where
  "year_of_text s = py_int (drop 6 s)"

text \<open>
  The texts the parser takes for the day, the month and the year: a day is two digits,
  one digit, or a blank and one digit; a month is two digits or one digit; a year is
  four digits.
\<close>

definition day_text :: "string \<Rightarrow> bool" where
  "day_text t =
     (case t of
        [a] \<Rightarrow> ascii_digit a
      | [a, b] \<Rightarrow> (ascii_digit a \<or> a = CHR '' '') \<and> ascii_digit b
      | _ \<Rightarrow> False)"

definition month_text :: "string \<Rightarrow> bool" where
  "month_text t =
     (case t of [a] \<Rightarrow> ascii_digit a | [a, b] \<Rightarrow> ascii_digit a \<and> ascii_digit b | _ \<Rightarrow> False)"

definition year_text :: "string \<Rightarrow> bool" where
  "year_text t = (length t = 4 \<and> list_all ascii_digit t)"

text \<open>A phone text as the specification has it: ten characters, each from 0 to 9.\<close>

definition ten_decimal_digits :: "string \<Rightarrow> bool" where
  "ten_decimal_digits s = (length s = 10 \<and> list_all ascii_digit s)"

text \<open>
  The specification's account of the upcoming birthdays. The birthday re-based: its
  month and day in today's year, or in the next year when that date is before today.
  \<open>days_until\<close> is the number of days from today to the re-based birthday, and a record
  is in the window when it has a birthday with \<open>0 \<le> days_until \<le> 7\<close>.
\<close>

definition in_year :: "int \<Rightarrow> date \<Rightarrow> date" where
  "in_year y b = \<lparr>year = y, month = month b, day = day b\<rparr>"

definition this_year_date :: "date \<Rightarrow> date \<Rightarrow> date" where
  "this_year_date today b =
     (if date_lt (in_year (year today) b) today then in_year (year today + 1) b
      else in_year (year today) b)"

definition days_until :: "date \<Rightarrow> date \<Rightarrow> int" where
  "days_until today b = toordinal (this_year_date today b) - toordinal today"

definition in_window :: "date \<Rightarrow> Record \<Rightarrow> bool" where
  "in_window today r =
     (case birthday r of
        None \<Rightarrow> False
      | Some b \<Rightarrow> 0 \<le> days_until today (birthday_value b)
                  \<and> days_until today (birthday_value b) \<le> 7)"

text \<open>
  Re-basing is defined when the month and day exist in today's year and, if that date
  is before today, in the next year as well.
\<close>

definition rebasable :: "date \<Rightarrow> date \<Rightarrow> bool" where
  "rebasable today b =
     (valid_date (in_year (year today) b)
      \<and> (date_lt (in_year (year today) b) today \<longrightarrow> valid_date (in_year (year today + 1) b)))"

text \<open>The records of a book that have a birthday, and the dates they hold.\<close>

definition birthdays_of :: "AddressBook \<Rightarrow> date list" where
  "birthdays_of book =
     concat (map (\<lambda>r. case birthday r of None \<Rightarrow> [] | Some b \<Rightarrow> [birthday_value b])
               (dict_values book))"

definition record_names :: "Record list \<Rightarrow> string list" where
  "record_names rs = map (\<lambda>r. name_value (name r)) rs"

section \<open>Properties of records and of the address book\<close>

lemma find_phone_loop_append_new:
  "str_Phone p = t \<Longrightarrow> \<exists>q. find_phone_loop t (ps @ [p]) = Some q \<and> str_Phone q = t"
  by (induction ps) auto

lemma find_phone_loop_filter_none:
  "find_phone_loop t [p \<leftarrow> ps. str_Phone p \<noteq> t] = None"
  by (induction ps) auto

lemma find_phone_loop_append_other:
  "str_Phone p \<noteq> t \<Longrightarrow> find_phone_loop t (ps @ [p]) = find_phone_loop t ps"
  by (induction ps) auto

lemma dict_get_setitem: "dict_get k (dict_setitem k v kvs) = Some v"
  by (induction kvs) auto

lemma dict_contains_get: "dict_contains k kvs \<longleftrightarrow> dict_get k kvs \<noteq> None"
  by (induction kvs) auto

lemma dict_get_notin: "k \<notin> fst ` set kvs \<Longrightarrow> dict_get k kvs = None"
  by (induction kvs) auto

lemma dict_get_delitem: "dict_ok kvs \<Longrightarrow> dict_get k (dict_delitem k kvs) = None"
  unfolding dict_ok_def
  by (induction kvs) (auto simp: dict_get_notin)

lemma dict_setitem_keys:
  "fst ` set (dict_setitem k v kvs) = insert k (fst ` set kvs)"
proof (induction kvs)
  case Nil
  then show ?case by simp
next
  case (Cons a kvs)
  obtain k' v' where a: "a = (k', v')" by (cases a)
  show ?case
  proof (cases "k' = k")
    case True
    with a show ?thesis by simp
  next
    case False
    with a Cons show ?thesis by (simp add: insert_commute)
  qed
qed

lemma dict_ok_setitem: "dict_ok kvs \<Longrightarrow> dict_ok (dict_setitem k v kvs)"
  unfolding dict_ok_def
proof (induction kvs)
  case Nil
  then show ?case by simp
next
  case (Cons a kvs)
  obtain k' v' where a: "a = (k', v')" by (cases a)
  show ?case
  proof (cases "k' = k")
    case True
    with Cons a show ?thesis by simp
  next
    case False
    have "k' \<notin> fst ` set (dict_setitem k v kvs)"
      using Cons.prems a False by (simp add: dict_setitem_keys)
    with Cons a False show ?thesis by simp
  qed
qed

lemma dict_delitem_keys: "fst ` set (dict_delitem k kvs) \<subseteq> fst ` set kvs"
proof (induction kvs)
  case Nil
  then show ?case by simp
next
  case (Cons a kvs)
  obtain k' v' where a: "a = (k', v')" by (cases a)
  show ?case
  proof (cases "k' = k")
    case True
    with a show ?thesis by auto
  next
    case False
    with a Cons show ?thesis by auto
  qed
qed

lemma dict_ok_delitem: "dict_ok kvs \<Longrightarrow> dict_ok (dict_delitem k kvs)"
  unfolding dict_ok_def
proof (induction kvs)
  case Nil
  then show ?case by simp
next
  case (Cons a kvs)
  obtain k' v' where a: "a = (k', v')" by (cases a)
  have "k' \<notin> fst ` set (dict_delitem k kvs)"
    using Cons.prems a dict_delitem_keys [of k kvs] by auto
  with Cons a show ?case by simp
qed

text \<open>
  C6: \<^verbatim>\<open>edit_phone(oldPhoneText, newPhone)\<close> with a phone object raises nothing and
  leaves the phone sequence equal to the original one without the entries whose string
  form is \<open>oldPhoneText\<close>, followed by \<open>newPhone\<close>; name and birthday are untouched, and
  when no entry matched the sequence is the original one followed by \<open>newPhone\<close>.
\<close>

theorem edit_phone_removes_then_appends:
  "edit_phone old (PhoneField new) r =
     (r\<lparr>phones := filter (\<lambda>p. str_Phone p \<noteq> old) (phones r) @ [new]\<rparr>, None)
   \<and> (old \<notin> str_Phone ` set (phones r) \<longrightarrow>
        edit_phone old (PhoneField new) r = (r\<lparr>phones := phones r @ [new]\<rparr>, None))"
proof -
  have a: "edit_phone old (PhoneField new) r =
     (r\<lparr>phones := filter (\<lambda>p. str_Phone p \<noteq> old) (phones r) @ [new]\<rparr>, None)"
    by (simp add: edit_phone_def add_phone_def remove_phone_def)
  have b: "filter (\<lambda>p. str_Phone p \<noteq> old) (phones r) = phones r"
    if "old \<notin> str_Phone ` set (phones r)"
    using that by (auto simp: filter_id_conv)
  show ?thesis using a b by simp
qed

theorem edit_phone_removes_then_appends_witness:
  "edit_phone ''0000000000'' (PhoneField (Phone ''1111111111''))
      \<lparr>name = Name ''a'', phones = [Phone ''2222222222''], birthday = None\<rparr>
   = (\<lparr>name = Name ''a'', phones = [Phone ''2222222222'', Phone ''1111111111''],
          birthday = None\<rparr>, None)"
  using edit_phone_removes_then_appends [of "''0000000000''" "Phone ''1111111111''"
      "\<lparr>name = Name ''a'', phones = [Phone ''2222222222''], birthday = None\<rparr>"]
  by (simp add: str_Phone_def)

text \<open>
  C7 as stated fails when the new phone has the same text as the old one: the old
  entries are removed, the new one is appended, and looking the old text up finds it.
\<close>

theorem edit_then_find_old_counterexample:
  "edit_phone ''1234567890'' (PhoneField (Phone ''1234567890''))
      \<lparr>name = Name ''a'', phones = [Phone ''1234567890''], birthday = None\<rparr>
     = (\<lparr>name = Name ''a'', phones = [Phone ''1234567890''], birthday = None\<rparr>, None)
   \<and> find_phone ''1234567890''
        (fst (edit_phone ''1234567890'' (PhoneField (Phone ''1234567890''))
           \<lparr>name = Name ''a'', phones = [Phone ''1234567890''], birthday = None\<rparr>))
     = Some (Phone ''1234567890'')"
  by (simp add: edit_phone_def add_phone_def remove_phone_def find_phone_def str_Phone_def)

text \<open>
  C7, amended: after \<^verbatim>\<open>edit_phone(old, new)\<close> on any record, looking up the text of
  \<open>new\<close> returns \<open>new\<close>, and, provided the text of \<open>new\<close> differs from \<open>old\<close>, looking up
  \<open>old\<close> returns nothing.
\<close>

theorem edit_then_find:
  "\<exists>r'. edit_phone old (PhoneField new) r = (r', None)
     \<and> find_phone (str_Phone new) r' = Some new
     \<and> (str_Phone new \<noteq> old \<longrightarrow> find_phone old r' = None)"
proof -
  let ?ps = "filter (\<lambda>p. str_Phone p \<noteq> old) (phones r)"
  let ?r' = "r\<lparr>phones := ?ps @ [new]\<rparr>"
  have e: "edit_phone old (PhoneField new) r = (?r', None)"
    by (simp add: edit_phone_def add_phone_def remove_phone_def)
  obtain q where q: "find_phone_loop (str_Phone new) (?ps @ [new]) = Some q"
    and qs: "str_Phone q = str_Phone new"
    using find_phone_loop_append_new [of new "str_Phone new" ?ps] by auto
  have "q = new" using qs by (cases q, cases new) (simp add: str_Phone_def)
  then have f1: "find_phone (str_Phone new) ?r' = Some new"
    using q by (simp add: find_phone_def)
  have f2: "find_phone old ?r' = None" if "str_Phone new \<noteq> old"
    using that
    by (simp add: find_phone_def find_phone_loop_append_other find_phone_loop_filter_none)
  show ?thesis using e f1 f2 by blast
qed

theorem edit_then_find_witness:
  "\<exists>r'. edit_phone ''1234567890'' (PhoneField (Phone ''0987654321''))
           \<lparr>name = Name ''a'', phones = [Phone ''1234567890''], birthday = None\<rparr>
           = (r', None)
     \<and> find_phone ''0987654321'' r' = Some (Phone ''0987654321'')
     \<and> find_phone ''1234567890'' r' = None"
  using edit_then_find [of "''1234567890''" "Phone ''0987654321''"
      "\<lparr>name = Name ''a'', phones = [Phone ''1234567890''], birthday = None\<rparr>"]
  by (simp add: str_Phone_def)

text \<open>
  C9: after \<^verbatim>\<open>add_record(record)\<close>, \<^verbatim>\<open>find\<close> of the record's name returns that record
  (whose name is the one looked up); after \<^verbatim>\<open>delete(name)\<close>, \<^verbatim>\<open>find(name)\<close> returns
  nothing. \<^verbatim>\<open>find\<close> has no failing branch: it returns a record or \<open>None\<close>.
\<close>

theorem add_find_delete_find:
  "find_book (name_value (name r)) (add_record r book) = Some r
   \<and> (dict_ok book \<longrightarrow> find_book n (delete n book) = None)"
proof -
  have a: "find_book (name_value (name r)) (add_record r book) = Some r"
    by (simp add: find_book_def add_record_def dict_get_setitem)
  have b: "find_book n (delete n book) = None" if "dict_ok book"
    using that by (simp add: find_book_def delete_def dict_get_delitem dict_contains_get)
  show ?thesis using a b by simp
qed

theorem add_find_delete_find_witness:
  "find_book ''bob'' (add_record (Record_init ''bob'') [(''ann'', Record_init ''ann'')])
     = Some (Record_init ''bob'')
   \<and> dict_ok [(''ann'', Record_init ''ann'')]
   \<and> find_book ''ann'' (delete ''ann'' [(''ann'', Record_init ''ann'')]) = None"
  using add_find_delete_find [of "Record_init ''bob''" "[(''ann'', Record_init ''ann'')]" "''ann''"]
  by (simp add: Record_init_def dict_ok_def)

section \<open>Properties of the calendar arithmetic\<close>

lemma DI_values: "DI400Y = 146097" "DI100Y = 36524" "DI4Y = 1461"
  by (simp_all add: DI400Y_def DI100Y_def DI4Y_def days_before_year_def)

lemma mo_cases:
  fixes mo :: int
  assumes "1 \<le> mo" "mo \<le> 12"
  shows "mo = 1 \<or> mo = 2 \<or> mo = 3 \<or> mo = 4 \<or> mo = 5 \<or> mo = 6
    \<or> mo = 7 \<or> mo = 8 \<or> mo = 9 \<or> mo = 10 \<or> mo = 11 \<or> mo = 12"
  using assms by presburger

lemma table_simps:
  "DAYS_BEFORE_MONTH ! 1 = 0" "DAYS_BEFORE_MONTH ! 2 = 31" "DAYS_BEFORE_MONTH ! 3 = 59"
  "DAYS_BEFORE_MONTH ! 4 = 90" "DAYS_BEFORE_MONTH ! 5 = 120" "DAYS_BEFORE_MONTH ! 6 = 151"
  "DAYS_BEFORE_MONTH ! 7 = 181" "DAYS_BEFORE_MONTH ! 8 = 212" "DAYS_BEFORE_MONTH ! 9 = 243"
  "DAYS_BEFORE_MONTH ! 10 = 273" "DAYS_BEFORE_MONTH ! 11 = 304" "DAYS_BEFORE_MONTH ! 12 = 334"
  "DAYS_IN_MONTH ! 1 = 31" "DAYS_IN_MONTH ! 2 = 28" "DAYS_IN_MONTH ! 3 = 31"
  "DAYS_IN_MONTH ! 4 = 30" "DAYS_IN_MONTH ! 5 = 31" "DAYS_IN_MONTH ! 6 = 30"
  "DAYS_IN_MONTH ! 7 = 31" "DAYS_IN_MONTH ! 8 = 31" "DAYS_IN_MONTH ! 9 = 30"
  "DAYS_IN_MONTH ! 10 = 31" "DAYS_IN_MONTH ! 11 = 30" "DAYS_IN_MONTH ! 12 = 31"
  "DAYS_BEFORE_MONTH ! Suc 0 = 0" "DAYS_IN_MONTH ! Suc 0 = 31"
  by (simp_all add: DAYS_BEFORE_MONTH_def DAYS_IN_MONTH_def)

lemma month_estimate:
  fixes r :: int
  assumes r: "0 \<le> r" "r < 365"
    and mo: "mo = (r + 50) div 32"
    and prec0: "prec0 = DAYS_BEFORE_MONTH ! nat mo + (if mo > 2 \<and> leap then 1 else 0)"
    and res: "(m, prec) =
        (if prec0 > r
         then (mo - 1, prec0 - (DAYS_IN_MONTH ! nat (mo - 1) + (if mo - 1 = 2 \<and> leap then 1 else 0)))
         else (mo, prec0))"
  shows "1 \<le> m \<and> m \<le> 12
       \<and> prec = DAYS_BEFORE_MONTH ! nat m + (if m > 2 \<and> leap then 1 else 0)
       \<and> prec \<le> r
       \<and> r < prec + (if m = 2 \<and> leap then 29 else DAYS_IN_MONTH ! nat m)"
proof -
  have range: "32 * mo \<le> r + 50" "r + 50 < 32 * mo + 32"
    using mo by arith+
  have "1 \<le> mo" "mo \<le> 12" using range r by linarith+
  then have cases: "mo = 1 \<or> mo = 2 \<or> mo = 3 \<or> mo = 4 \<or> mo = 5 \<or> mo = 6
    \<or> mo = 7 \<or> mo = 8 \<or> mo = 9 \<or> mo = 10 \<or> mo = 11 \<or> mo = 12"
    by (rule mo_cases)
  have c1: ?thesis if "mo = 1"
    using range r res unfolding prec0 that
    by (cases leap; simp add: table_simps split: if_splits)
  have c2: ?thesis if "mo = 2"
    using range r res unfolding prec0 that
    by (cases leap; simp add: table_simps split: if_splits)
  have c3: ?thesis if "mo = 3"
    using range r res unfolding prec0 that
    by (cases leap; simp add: table_simps split: if_splits)
  have c4: ?thesis if "mo = 4"
    using range r res unfolding prec0 that
    by (cases leap; simp add: table_simps split: if_splits)
  have c5: ?thesis if "mo = 5"
    using range r res unfolding prec0 that
    by (cases leap; simp add: table_simps split: if_splits)
  have c6: ?thesis if "mo = 6"
    using range r res unfolding prec0 that
    by (cases leap; simp add: table_simps split: if_splits)
  have c7: ?thesis if "mo = 7"
    using range r res unfolding prec0 that
    by (cases leap; simp add: table_simps split: if_splits)
  have c8: ?thesis if "mo = 8"
    using range r res unfolding prec0 that
    by (cases leap; simp add: table_simps split: if_splits)
  have c9: ?thesis if "mo = 9"
    using range r res unfolding prec0 that
    by (cases leap; simp add: table_simps split: if_splits)
  have c10: ?thesis if "mo = 10"
    using range r res unfolding prec0 that
    by (cases leap; simp add: table_simps split: if_splits)
  have c11: ?thesis if "mo = 11"
    using range r res unfolding prec0 that
    by (cases leap; simp add: table_simps split: if_splits)
  have c12: ?thesis if "mo = 12"
    using range r res unfolding prec0 that
    by (cases leap; simp add: table_simps split: if_splits)
  show ?thesis
    using cases c1 c2 c3 c4 c5 c6 c7 c8 c9 c10 c11 c12 by blast
qed


lemma year_divs:
  fixes q400 q100 q4 q1 :: int
  assumes "0 \<le> q100" "q100 \<le> 3" "0 \<le> q4" "q4 \<le> 24" "0 \<le> q1" "q1 \<le> 3"
    and "y = 400 * q400 + 100 * q100 + 4 * q4 + q1"
  shows "y div 4 = 100 * q400 + 25 * q100 + q4"
    and "y div 100 = 4 * q400 + q100"
    and "y div 400 = q400"
proof -
  show "y div 4 = 100 * q400 + 25 * q100 + q4"
    by (rule int_div_pos_eq [where r = q1]) (use assms in simp_all)
  show "y div 100 = 4 * q400 + q100"
    by (rule int_div_pos_eq [where r = "4 * q4 + q1"]) (use assms in simp_all)
  show "y div 400 = q400"
    by (rule int_div_pos_eq [where r = "100 * q100 + 4 * q4 + q1"]) (use assms in simp_all)
qed

lemma year_leap:
  fixes q400 q100 q4 q1 :: int
  assumes "0 \<le> q100" "q100 \<le> 3" "0 \<le> q4" "q4 \<le> 24" "0 \<le> q1" "q1 \<le> 3"
    and "y = 400 * q400 + 100 * q100 + 4 * q4 + q1 + 1"
  shows "is_leap y \<longleftrightarrow> (q1 = 3 \<and> (q4 \<noteq> 24 \<or> q100 = 3))"
proof -
  have m4: "y mod 4 = (if q1 = 3 then 0 else q1 + 1)"
  proof (cases "q1 = 3")
    case True
    have "y mod 4 = 0"
      by (rule int_mod_pos_eq [where q = "100 * q400 + 25 * q100 + q4 + 1"])
         (use assms True in simp_all)
    with True show ?thesis by simp
  next
    case False
    have "y mod 4 = q1 + 1"
      by (rule int_mod_pos_eq [where q = "100 * q400 + 25 * q100 + q4"])
         (use assms False in simp_all)
    with False show ?thesis by simp
  qed
  have m100: "y mod 100 = (if q1 = 3 \<and> q4 = 24 then 0 else 4 * q4 + q1 + 1)"
  proof (cases "q1 = 3 \<and> q4 = 24")
    case True
    have "y mod 100 = 0"
      by (rule int_mod_pos_eq [where q = "4 * q400 + q100 + 1"])
         (use assms True in simp_all)
    with True show ?thesis by simp
  next
    case False
    have "y mod 100 = 4 * q4 + q1 + 1"
      by (rule int_mod_pos_eq [where q = "4 * q400 + q100"])
         (use assms False in auto)
    with False show ?thesis by simp
  qed
  have m400: "y mod 400 = 0 \<longleftrightarrow> q100 = 3" if "q1 = 3" "q4 = 24"
  proof (cases "q100 = 3")
    case True
    have "y mod 400 = 0"
      by (rule int_mod_pos_eq [where q = "q400 + 1"]) (use assms True that in simp_all)
    with True show ?thesis by simp
  next
    case False
    have "y mod 400 = 100 * q100 + 100"
      by (rule int_mod_pos_eq [where q = "q400"]) (use assms False that in simp_all)
    with False assms show ?thesis by simp
  qed
  show ?thesis
    unfolding is_leap_def using m4 m100 m400 assms by auto
qed



lemma divmod_facts:
  fixes a b :: int
  assumes "0 \<le> a" "0 < b" "a < b * k + c" "c \<le> b"
  shows "a = b * (a div b) + a mod b" "0 \<le> a mod b" "a mod b < b" "0 \<le> a div b"
    "a div b \<le> k"
proof -
  show "a = b * (a div b) + a mod b" by simp
  show "0 \<le> a mod b" using assms by simp
  show "a mod b < b" using assms by simp
  show "0 \<le> a div b" using assms by (simp add: pos_imp_zdiv_nonneg_iff)
  have "b * (a div b) + a mod b = a" "0 \<le> a mod b" using assms(2) by simp_all
  then have "b * (a div b) \<le> a" by linarith
  then have "b * (a div b) < b * (k + 1)" using assms by (simp add: algebra_simps)
  then have "a div b < k + 1" using assms(2) by (simp add: mult_less_cancel_left_pos)
  then show "a div b \<le> k" by simp
qed

lemma days_before_year_mono_10000:
  assumes "10000 \<le> y"
  shows "3652059 \<le> days_before_year y"
proof -
  define Y where "Y = y - 1"
  have "4 * (Y div 4) + Y mod 4 = Y" "Y mod 4 < 4"
       "100 * (Y div 100) + Y mod 100 = Y" "0 \<le> Y mod 100"
       "400 * (Y div 400) + Y mod 400 = Y" "Y mod 400 < 400"
    by simp_all
  moreover have "9999 \<le> Y" using assms by (simp add: Y_def)
  ultimately have "3652059 \<le> Y * 365 + Y div 4 - Y div 100 + Y div 400"
    by linarith
  then show ?thesis by (simp add: days_before_year_def Let_def Y_def)
qed


lemma ord2ymd_unfold:
  fixes n :: int
  defines "a \<equiv> n - 1"
  defines "r1 \<equiv> a mod 146097"
  defines "r2 \<equiv> r1 mod 36524"
  defines "r3 \<equiv> r2 mod 1461"
  defines "r4 \<equiv> r3 mod 365"
  defines "Y \<equiv> a div 146097 * 400 + 1 + (r1 div 36524 * 100 + r2 div 1461 * 4 + r3 div 365)"
  defines "leapyear \<equiv> r3 div 365 = 3 \<and> (r2 div 1461 \<noteq> 24 \<or> r1 div 36524 = 3)"
  defines "mo \<equiv> (r4 + 50) div 32"
  defines "prec0 \<equiv> DAYS_BEFORE_MONTH ! nat mo + (if mo > 2 \<and> leapyear then 1 else 0)"
  defines "mp \<equiv>
     (if prec0 > r4
      then (mo - 1, prec0 - (DAYS_IN_MONTH ! nat (mo - 1)
                               + (if mo - 1 = 2 \<and> leapyear then 1 else 0)))
      else (mo, prec0))"
  shows "ord2ymd n =
     (if r3 div 365 = 4 \<or> r1 div 36524 = 4 then (Y - 1, 12, 31)
      else (Y, fst mp, r4 - snd mp + 1))"
  unfolding ord2ymd_def DI_values Let_def assms split_beta
  by (rule refl)


lemma ord2ymd_sound:
  assumes n: "1 \<le> n" and res: "ord2ymd n = (y, m, d)"
  shows "1 \<le> y \<and> 1 \<le> m \<and> m \<le> 12 \<and> 1 \<le> d \<and> d \<le> days_in_month y m
         \<and> ymd2ord y m d = n"
proof -
  define a where "a = n - 1"
  define q400 where "q400 = a div 146097"
  define r1 where "r1 = a mod 146097"
  define q100 where "q100 = r1 div 36524"
  define r2 where "r2 = r1 mod 36524"
  define q4 where "q4 = r2 div 1461"
  define r3 where "r3 = r2 mod 1461"
  define q1 where "q1 = r3 div 365"
  define r4 where "r4 = r3 mod 365"
  define Y where "Y = q400 * 400 + 1 + (q100 * 100 + q4 * 4 + q1)"
  define leapyear where "leapyear \<longleftrightarrow> q1 = 3 \<and> (q4 \<noteq> 24 \<or> q100 = 3)"
  define mo where "mo = (r4 + 50) div 32"
  define prec0 where
    "prec0 = DAYS_BEFORE_MONTH ! nat mo + (if mo > 2 \<and> leapyear then 1 else 0)"
  define mp where "mp =
     (if prec0 > r4
      then (mo - 1, prec0 - (DAYS_IN_MONTH ! nat (mo - 1)
                               + (if mo - 1 = 2 \<and> leapyear then 1 else 0)))
      else (mo, prec0))"
  have a0: "0 \<le> a" using n by (simp add: a_def)
  have d1: "a = 146097 * q400 + r1" "0 \<le> r1" "r1 < 146097" "0 \<le> q400"
    unfolding q400_def r1_def using a0 by (simp_all add: pos_imp_zdiv_nonneg_iff)
  have d2: "r1 = 36524 * q100 + r2" "0 \<le> r2" "r2 < 36524" "0 \<le> q100" "q100 \<le> 4"
    unfolding q100_def r2_def
    using divmod_facts [of r1 36524 4 1] d1(2,3) by simp_all
  have d3: "r2 = 1461 * q4 + r3" "0 \<le> r3" "r3 < 1461" "0 \<le> q4" "q4 \<le> 24"
    unfolding q4_def r3_def
    using divmod_facts [of r2 1461 24 1460] d2(2,3) by simp_all
  have d4: "r3 = 365 * q1 + r4" "0 \<le> r4" "r4 < 365" "0 \<le> q1" "q1 \<le> 4"
    unfolding q1_def r4_def
    using divmod_facts [of r3 365 4 1] d3(2,3) by simp_all
  have unfold: "ord2ymd n =
     (if q1 = 4 \<or> q100 = 4 then (Y - 1, 12, 31)
      else (Y, fst mp, r4 - snd mp + 1))"
    unfolding mp_def prec0_def mo_def leapyear_def Y_def q1_def q100_def q4_def q400_def
      r4_def r3_def r2_def r1_def a_def
    by (rule ord2ymd_unfold)
  show ?thesis
  proof (cases "q1 = 4 \<or> q100 = 4")
    case True
    then have ymd: "y = Y - 1" "m = 12" "d = 31" using res unfold by simp_all
    show ?thesis
    proof (cases "q100 = 4")
      case True
      then have "r2 = 0" using d1 d2 by linarith
      then have "q4 = 0" "r3 = 0" using d3 by linarith+
      then have "q1 = 0" "r4 = 0" using d4 by linarith+
      note z = \<open>r2 = 0\<close> \<open>q4 = 0\<close> \<open>r3 = 0\<close> \<open>q1 = 0\<close> \<open>r4 = 0\<close>
      have y1: "Y - 1 = 400 * (q400 + 1)" using True z by (simp add: Y_def)
      have leap: "is_leap (Y - 1)" unfolding y1 is_leap_def by simp
      have dv: "(Y - 2) div 4 = 100 * q400 + 99" "(Y - 2) div 100 = 4 * q400 + 3"
        "(Y - 2) div 400 = q400"
        using year_divs [of 3 24 3 "Y - 2" q400] y1 by simp_all
      have "days_before_year (Y - 1) = 146097 * q400 + 145731"
        using dv y1 by (simp add: days_before_year_def Let_def)
      then have "ymd2ord (Y - 1) 12 31 = n"
        using leap d1 d2 z True
        by (simp add: ymd2ord_def days_before_month_def table_simps a_def)
      moreover have "1 \<le> Y - 1" using y1 d1 by simp
      ultimately show ?thesis
        using ymd by (simp add: days_in_month_def table_simps)
    next
      case False
      with True have q1: "q1 = 4" by simp
      have q100: "q100 \<le> 3" using False d2 by simp
      have r4: "r4 = 0" using q1 d4 d3 by linarith
      have q4: "q4 \<le> 23" using d3 d2 d4 q1 by linarith
      have leap: "is_leap (Y - 1)"
        using year_leap [of q100 q4 3 "Y - 1" q400] q100 q4 d2 d3 q1
        by (simp add: Y_def)
      have dv: "(Y - 2) div 4 = 100 * q400 + 25 * q100 + q4"
        "(Y - 2) div 100 = 4 * q400 + q100" "(Y - 2) div 400 = q400"
        using year_divs [of q100 q4 3 "Y - 2" q400] q100 q4 d2 d3 q1
        by (simp_all add: Y_def)
      have "days_before_year (Y - 1)
              = 146097 * q400 + 36524 * q100 + 1461 * q4 + 1095"
        using dv q1 by (simp add: days_before_year_def Let_def Y_def)
      then have "ymd2ord (Y - 1) 12 31 = n"
        using leap d1 d2 d3 d4 q1 r4
        by (simp add: ymd2ord_def days_before_month_def table_simps a_def)
      moreover have "1 \<le> Y - 1" using q1 d1 d2 d3 by (simp add: Y_def)
      ultimately show ?thesis
        using ymd by (simp add: days_in_month_def table_simps)
    qed
  next
    case False
    then have q: "q1 \<le> 3" "q100 \<le> 3" using d2 d4 by simp_all
    have ymd: "y = Y" "m = fst mp" "d = r4 - snd mp + 1"
      using res unfold False by simp_all
    have leap: "is_leap Y \<longleftrightarrow> leapyear"
      unfolding leapyear_def
      using year_leap [of q100 q4 q1 Y q400] q d2 d3 d4 by (simp add: Y_def)
    have dv: "(Y - 1) div 4 = 100 * q400 + 25 * q100 + q4"
      "(Y - 1) div 100 = 4 * q400 + q100" "(Y - 1) div 400 = q400"
      using year_divs [of q100 q4 q1 "Y - 1" q400] q d2 d3 d4
      by (simp_all add: Y_def)
    have dby: "days_before_year Y = a - r4"
      using dv d1 d2 d3 d4 by (simp add: days_before_year_def Let_def Y_def)
    have me: "1 \<le> fst mp \<and> fst mp \<le> 12
       \<and> snd mp = DAYS_BEFORE_MONTH ! nat (fst mp) + (if fst mp > 2 \<and> leapyear then 1 else 0)
       \<and> snd mp \<le> r4
       \<and> r4 < snd mp + (if fst mp = 2 \<and> leapyear then 29 else DAYS_IN_MONTH ! nat (fst mp))"
      by (rule month_estimate [OF d4(2,3) mo_def prec0_def]) (simp add: mp_def)
    have "ymd2ord Y (fst mp) (r4 - snd mp + 1) = n"
      using me dby leap by (simp add: ymd2ord_def days_before_month_def a_def)
    moreover have "r4 - snd mp + 1 \<le> days_in_month Y (fst mp)"
      using me leap by (simp add: days_in_month_def)
    moreover have "1 \<le> Y" using d1 d2 d3 d4 by (simp add: Y_def)
    ultimately show ?thesis using ymd me by simp
  qed
qed


lemma days_in_month_cases:
  assumes "1 \<le> m" "m \<le> 12"
  shows "days_in_month y m =
     (if m = 2 then (if is_leap y then 29 else 28)
      else if m = 4 \<or> m = 6 \<or> m = 9 \<or> m = 11 then 30 else 31)"
  using mo_cases [OF assms]
  by (elim disjE; simp add: days_in_month_def table_simps)

lemma date_new_Inr_iff:
  "date_new y m d = Inr dt \<longleftrightarrow>
     real_calendar_date y m d \<and> y \<le> 9999 \<and> dt = \<lparr>year = y, month = m, day = d\<rparr>"
proof (cases "1 \<le> m \<and> m \<le> 12")
  case True
  then show ?thesis
    using days_in_month_cases [of m y]
    by (auto simp: date_new_def check_date_fields_def real_calendar_date_def is_leap_def)
next
  case False
  then show ?thesis
    by (auto simp: date_new_def check_date_fields_def real_calendar_date_def)
qed

lemma date_new_valid: "date_new y m d = Inr dt \<Longrightarrow> valid_date dt"
  by (auto simp: date_new_def check_date_fields_def valid_date_def split: if_splits)

lemma date_new_of_valid:
  "valid_date dt \<Longrightarrow> date_new (year dt) (month dt) (day dt) = Inr dt"
  by (simp add: date_new_def check_date_fields_def valid_date_def)

lemma days_before_month_bounds:
  assumes "1 \<le> m" "m \<le> 12" "1 \<le> d" "d \<le> days_in_month y m"
  shows "0 \<le> days_before_month y m"
    and "days_before_month y m + d \<le> 365 + (if is_leap y then 1 else 0)"
  using mo_cases [OF assms(1,2)] assms(3,4)
  by (elim disjE; simp add: days_in_month_def days_before_month_def table_simps split: if_splits)+

lemma days_before_year_nonneg: "1 \<le> y \<Longrightarrow> 0 \<le> days_before_year y"
proof -
  assume y: "1 \<le> y"
  define Y where "Y = y - 1"
  have "4 * (Y div 4) + Y mod 4 = Y" "Y mod 4 < 4"
       "100 * (Y div 100) + Y mod 100 = Y" "0 \<le> Y mod 100"
       "400 * (Y div 400) + Y mod 400 = Y" "Y mod 400 < 400"
    by simp_all
  moreover have "0 \<le> Y" using y by (simp add: Y_def)
  moreover from this have "0 \<le> Y div 4" "0 \<le> Y div 100" "0 \<le> Y div 400"
    by (simp_all add: pos_imp_zdiv_nonneg_iff)
  ultimately have "0 \<le> Y * 365 + Y div 4 - Y div 100 + Y div 400"
    by linarith
  then show ?thesis by (simp add: days_before_year_def Let_def Y_def)
qed

lemma days_before_year_upper:
  assumes "y \<le> 9998"
  shows "days_before_year y + 366 \<le> 3652059"
proof -
  define Y where "Y = y - 1"
  have "4 * (Y div 4) + Y mod 4 = Y" "0 \<le> Y mod 4"
       "100 * (Y div 100) + Y mod 100 = Y" "Y mod 100 < 100"
       "400 * (Y div 400) + Y mod 400 = Y" "0 \<le> Y mod 400"
    by simp_all
  moreover have "Y \<le> 9997" using assms by (simp add: Y_def)
  ultimately have "Y * 365 + Y div 4 - Y div 100 + Y div 400 + 366 \<le> 3652059"
    by linarith
  then show ?thesis by (simp add: days_before_year_def Let_def Y_def)
qed

lemma toordinal_bounds:
  assumes "valid_date dt"
  shows "1 \<le> toordinal dt" and "toordinal dt \<le> MAXORDINAL"
proof -
  have v: "1 \<le> year dt" "year dt \<le> 9999" "1 \<le> month dt" "month dt \<le> 12"
    "1 \<le> day dt" "day dt \<le> days_in_month (year dt) (month dt)"
    using assms by (simp_all add: valid_date_def)
  note b = days_before_month_bounds [OF v(3,4,5,6)]
  show "1 \<le> toordinal dt"
    using days_before_year_nonneg [OF v(1)] b(1) v(5)
    by (simp add: toordinal_def ymd2ord_def)
  show "toordinal dt \<le> MAXORDINAL"
  proof (cases "year dt = 9999")
    case True
    have "\<not> is_leap 9999" by (simp add: is_leap_def)
    moreover have "days_before_year 9999 = 3651694"
      by (simp add: days_before_year_def)
    ultimately show ?thesis using b(2) True
      by (simp add: toordinal_def ymd2ord_def MAXORDINAL_def)
  next
    case False
    then have "year dt \<le> 9998" using v(2) by simp
    from days_before_year_upper [OF this] b(2) show ?thesis
      by (simp add: toordinal_def ymd2ord_def MAXORDINAL_def split: if_splits)
  qed
qed

lemma fromordinal_ok:
  assumes "1 \<le> n" "n \<le> MAXORDINAL"
  shows "\<exists>dt. fromordinal n = Inr dt \<and> valid_date dt \<and> toordinal dt = n"
proof -
  obtain y m d where res: "ord2ymd n = (y, m, d)" by (cases "ord2ymd n")
  note s = ord2ymd_sound [OF assms(1) res]
  have "y \<le> 9999"
  proof (rule ccontr)
    assume "\<not> y \<le> 9999"
    then have "10000 \<le> y" by simp
    from days_before_year_mono_10000 [OF this]
      days_before_month_bounds(1) [of m d y] s assms(2)
    show False by (simp add: ymd2ord_def MAXORDINAL_def)
  qed
  then have "date_new y m d = Inr \<lparr>year = y, month = m, day = d\<rparr>"
    using s by (simp add: date_new_def check_date_fields_def)
  then show ?thesis
    using res s \<open>y \<le> 9999\<close>
    by (simp add: fromordinal_def valid_date_def toordinal_def)
qed

lemma weekend_no_overflow:
  assumes "valid_date dt" "weekday dt = 5 \<or> weekday dt = 6"
  shows "\<exists>mon. date_add_days dt (7 - weekday dt) = Inr mon \<and> valid_date mon
           \<and> toordinal mon = toordinal dt + (7 - weekday dt) \<and> weekday mon = 0"
proof -
  define t where "t = toordinal dt"
  have tb: "1 \<le> t" "t \<le> 3652059"
    using toordinal_bounds [OF assms(1)] by (simp_all add: t_def MAXORDINAL_def)
  have w: "(t + 6) mod 7 = 5 \<or> (t + 6) mod 7 = 6"
    using assms(2) by (simp add: weekday_def t_def)
  have rng: "1 \<le> t + (7 - (t + 6) mod 7)" "t + (7 - (t + 6) mod 7) \<le> 3652059"
    using tb w by presburger+
  have mon: "(t + (7 - (t + 6) mod 7) + 6) mod 7 = 0"
    by presburger
  obtain mon where m: "fromordinal (t + (7 - (t + 6) mod 7)) = Inr mon"
    "valid_date mon" "toordinal mon = t + (7 - (t + 6) mod 7)"
    using fromordinal_ok [of "t + (7 - (t + 6) mod 7)"] rng
    by (auto simp: MAXORDINAL_def)
  show ?thesis
    using m rng mon
    by (auto simp: date_add_days_def Let_def weekday_def t_def MAXORDINAL_def)
qed


lemma days_before_year_from_1000:
  assumes "1000 \<le> y"
  shows "364877 \<le> days_before_year y"
proof -
  define Y where "Y = y - 1"
  have "4 * (Y div 4) + Y mod 4 = Y" "Y mod 4 < 4"
       "100 * (Y div 100) + Y mod 100 = Y" "0 \<le> Y mod 100"
       "400 * (Y div 400) + Y mod 400 = Y" "Y mod 400 < 400"
    by simp_all
  note dm = this
  have "364877 \<le> Y * 365 + Y div 4 - Y div 100 + Y div 400"
  proof (cases "Y = 999")
    case True
    then show ?thesis by simp
  next
    case False
    then have "1000 \<le> Y" using assms by (simp add: Y_def)
    with dm show ?thesis by linarith
  qed
  then show ?thesis by (simp add: days_before_year_def Let_def Y_def)
qed

lemma days_before_year_below_999:
  assumes "y \<le> 998"
  shows "days_before_year y + 366 \<le> 364877"
proof -
  define Y where "Y = y - 1"
  have "4 * (Y div 4) + Y mod 4 = Y" "0 \<le> Y mod 4"
       "100 * (Y div 100) + Y mod 100 = Y" "Y mod 100 < 100"
       "400 * (Y div 400) + Y mod 400 = Y" "0 \<le> Y mod 400"
    by simp_all
  moreover have "Y \<le> 997" using assms by (simp add: Y_def)
  ultimately have "Y * 365 + Y div 4 - Y div 100 + Y div 400 + 366 \<le> 364877"
    by linarith
  then show ?thesis by (simp add: days_before_year_def Let_def Y_def)
qed

lemma year_from_1000_iff:
  assumes "valid_date dt"
  shows "1000 \<le> year dt \<longleftrightarrow> 364878 \<le> toordinal dt"
proof -
  have v: "1 \<le> year dt" "year dt \<le> 9999" "1 \<le> month dt" "month dt \<le> 12"
    "1 \<le> day dt" "day dt \<le> days_in_month (year dt) (month dt)"
    using assms by (simp_all add: valid_date_def)
  note b = days_before_month_bounds [OF v(3,4,5,6)]
  show ?thesis
  proof (cases "1000 \<le> year dt")
    case True
    from days_before_year_from_1000 [OF this] b(1) v(5) True show ?thesis
      by (simp add: toordinal_def ymd2ord_def)
  next
    case False
    have "toordinal dt \<le> 364877"
    proof (cases "year dt = 999")
      case True
      have "\<not> is_leap 999" by (simp add: is_leap_def)
      moreover have "days_before_year 999 = 364512"
        by (simp add: days_before_year_def)
      ultimately show ?thesis using b(2) True
        by (simp add: toordinal_def ymd2ord_def)
    next
      case n: False
      then have "year dt \<le> 998" using False by simp
      from days_before_year_below_999 [OF this] b(2) show ?thesis
        by (simp add: toordinal_def ymd2ord_def split: if_splits)
    qed
    then show ?thesis using False by simp
  qed
qed

section \<open>Properties of parsing and formatting\<close>

lemma alt2_iff:
  "(t, r) \<in> set (alt2 p q s) \<longleftrightarrow> (\<exists>a b. s = a # b # r \<and> t = [a, b] \<and> p a \<and> q b)"
  by (auto simp: alt2_def split: list.splits)

lemma alt1_iff:
  "(t, r) \<in> set (alt1 p s) \<longleftrightarrow> (\<exists>a. s = a # r \<and> t = [a] \<and> p a)"
  by (auto simp: alt1_def split: list.splits)

lemma match_dot_iff: "r \<in> set (match_dot s) \<longleftrightarrow> s = CHR ''.'' # r"
  by (auto simp: match_dot_def split: list.splits)

lemma match_Y_iff:
  "(t, r) \<in> set (match_Y s) \<longleftrightarrow> s = t @ r \<and> year_text t"
proof -
  have len4: "length t = 4 \<longleftrightarrow> (\<exists>a b c d. t = [a, b, c, d])" for t :: string
    by (auto simp: length_Suc_conv eval_nat_numeral)
  show ?thesis
    by (auto simp: match_Y_def year_text_def len4 split: list.splits)
qed



lemma alt2_split:
  "(t, r) \<in> set (alt2 p q s) \<longleftrightarrow> s = t @ r \<and> (t, []) \<in> set (alt2 p q t)"
  by (auto simp: alt2_iff)

lemma alt1_split:
  "(t, r) \<in> set (alt1 p s) \<longleftrightarrow> s = t @ r \<and> (t, []) \<in> set (alt1 p t)"
  by (auto simp: alt1_iff)

lemma match_d_iff:
  "(t, r) \<in> set (match_d s) \<longleftrightarrow> s = t @ r \<and> (t, []) \<in> set (match_d t)"
  unfolding match_d_def set_append Un_iff
  by (subst (1 2 3 4) alt2_split, subst alt1_split) blast

lemma match_m_iff:
  "(t, r) \<in> set (match_m s) \<longleftrightarrow> s = t @ r \<and> (t, []) \<in> set (match_m t)"
  unfolding match_m_def set_append Un_iff
  by (subst (1 2) alt2_split, subst alt1_split) blast


lemma regex_matches_chain:
  "((d, m, y), r) \<in> set (regex_matches s) \<longleftrightarrow>
     (\<exists>r1 r2 r3 r4. (d, r1) \<in> set (match_d s) \<and> r2 \<in> set (match_dot r1)
        \<and> (m, r3) \<in> set (match_m r2) \<and> r4 \<in> set (match_dot r3)
        \<and> (y, r) \<in> set (match_Y r4))"
  unfolding regex_matches_def by (simp add: split_beta) force


lemma regex_matches_iff:
  "((d, m, y), r) \<in> set (regex_matches s) \<longleftrightarrow>
     s = d @ ''.'' @ m @ ''.'' @ y @ r
     \<and> (d, []) \<in> set (match_d d) \<and> (m, []) \<in> set (match_m m) \<and> year_text y"
  (is "?L \<longleftrightarrow> ?R")
proof
  assume ?L
  then obtain r1 r2 r3 r4 where c: "(d, r1) \<in> set (match_d s)" "r2 \<in> set (match_dot r1)"
    "(m, r3) \<in> set (match_m r2)" "r4 \<in> set (match_dot r3)" "(y, r) \<in> set (match_Y r4)"
    unfolding regex_matches_chain by blast
  from c(1) have 1: "s = d @ r1" "(d, []) \<in> set (match_d d)"
    using match_d_iff [of d r1 s] by simp_all
  from c(2) have 2: "r1 = CHR ''.'' # r2" by (simp add: match_dot_iff)
  from c(3) have 3: "r2 = m @ r3" "(m, []) \<in> set (match_m m)"
    using match_m_iff [of m r3 r2] by simp_all
  from c(4) have 4: "r3 = CHR ''.'' # r4" by (simp add: match_dot_iff)
  from c(5) have 5: "r4 = y @ r" "year_text y" by (simp_all add: match_Y_iff)
  show ?R using 1 2 3 4 5 by simp
next
  assume R: ?R
  let ?r4 = "y @ r"
  let ?r3 = "CHR ''.'' # ?r4"
  let ?r2 = "m @ ?r3"
  let ?r1 = "CHR ''.'' # ?r2"
  have "(d, ?r1) \<in> set (match_d s)" using R match_d_iff [of d ?r1 s] by simp
  moreover have "?r2 \<in> set (match_dot ?r1)" by (simp add: match_dot_iff)
  moreover have "(m, ?r3) \<in> set (match_m ?r2)" using R match_m_iff [of m ?r3 ?r2] by simp
  moreover have "?r4 \<in> set (match_dot ?r3)" by (simp add: match_dot_iff)
  moreover have "(y, r) \<in> set (match_Y ?r4)" using R by (simp add: match_Y_iff)
  ultimately show ?L unfolding regex_matches_chain by blast
qed

lemma match_d_no_dot: "(d, []) \<in> set (match_d d) \<Longrightarrow> CHR ''.'' \<notin> set d"
  unfolding match_d_def set_append Un_iff alt2_iff alt1_iff
  by (auto simp: chr_in_def ascii_digit_def)

lemma match_m_no_dot: "(m, []) \<in> set (match_m m) \<Longrightarrow> CHR ''.'' \<notin> set m"
  unfolding match_m_def set_append Un_iff alt2_iff alt1_iff
  by (auto simp: chr_in_def ascii_digit_def)

lemma split_at_first:
  "x \<notin> set xs \<Longrightarrow> x \<notin> set xs' \<Longrightarrow> xs @ x # ys = xs' @ x # ys' \<Longrightarrow> xs = xs' \<and> ys = ys'"
proof (induction xs arbitrary: xs')
  case Nil
  then show ?case by (cases xs') auto
next
  case (Cons a xs)
  then show ?case by (cases xs') auto
qed

lemma regex_matches_unique:
  assumes "((d, m, y), r) \<in> set (regex_matches s)"
    and "((d', m', y'), r') \<in> set (regex_matches s)"
  shows "d' = d \<and> m' = m \<and> y' = y \<and> r' = r"
proof -
  from assms(1) have a: "s = d @ CHR ''.'' # m @ CHR ''.'' # y @ r"
    "CHR ''.'' \<notin> set d" "CHR ''.'' \<notin> set m" "length y = 4"
    by (simp_all add: regex_matches_iff match_d_no_dot match_m_no_dot year_text_def)
  from assms(2) have b: "s = d' @ CHR ''.'' # m' @ CHR ''.'' # y' @ r'"
    "CHR ''.'' \<notin> set d'" "CHR ''.'' \<notin> set m'" "length y' = 4"
    by (simp_all add: regex_matches_iff match_d_no_dot match_m_no_dot year_text_def)
  have "d @ CHR ''.'' # (m @ CHR ''.'' # y @ r) = d' @ CHR ''.'' # (m' @ CHR ''.'' # y' @ r')"
    using a(1) b(1) by simp
  from split_at_first [OF a(2) b(2) this]
  have 1: "d = d'" "m @ CHR ''.'' # (y @ r) = m' @ CHR ''.'' # (y' @ r')" by simp_all
  from split_at_first [OF a(3) b(3) 1(2)]
  have 2: "m = m'" "y @ r = y' @ r'" by simp_all
  then have "y = y' \<and> r = r'" using a(4) b(4) by simp
  with 1 2 show ?thesis by simp
qed

lemma strptime_dmY_iff:
  "strptime_dmY s = Inr dt \<longleftrightarrow>
     (\<exists>d m y. ((d, m, y), []) \<in> set (regex_matches s)
        \<and> date_new (py_int y) (py_int m) (py_int d) = Inr dt)"
  (is "?L \<longleftrightarrow> ?R")
proof
  assume L: ?L
  then obtain x xs where xs: "regex_matches s = x # xs"
    by (cases "regex_matches s") (simp_all add: strptime_dmY_def)
  obtain d m y r where x: "x = ((d, m, y), r)" by (cases x) auto
  have "r = []" using L xs x by (simp add: strptime_dmY_def split: if_splits)
  moreover from this have "date_new (py_int y) (py_int m) (py_int d) = Inr dt"
    using L xs x by (simp add: strptime_dmY_def)
  moreover have "x \<in> set (regex_matches s)" using xs by simp
  ultimately show ?R using x by blast
next
  assume ?R
  then obtain d m y where e: "((d, m, y), []) \<in> set (regex_matches s)"
    and dn: "date_new (py_int y) (py_int m) (py_int d) = Inr dt" by blast
  then obtain x xs where xs: "regex_matches s = x # xs" by (cases "regex_matches s") auto
  obtain d' m' y' r' where x: "x = ((d', m', y'), r')" by (cases x) auto
  have "((d', m', y'), r') \<in> set (regex_matches s)" using xs x by simp
  from regex_matches_unique [OF e this] have "x = ((d, m, y), [])" using x by simp
  then show ?L using xs dn by (simp add: strptime_dmY_def)
qed


lemma char_eq_code:
  "(c = CHR ''0'') = ((of_char c :: nat) = 48)"
  "(c = CHR ''1'') = ((of_char c :: nat) = 49)"
  "(c = CHR ''3'') = ((of_char c :: nat) = 51)"
  "(c = CHR '' '') = ((of_char c :: nat) = 32)"
  "(c = CHR ''.'') = ((of_char c :: nat) = 46)"
proof -
  have e: "(c = k) = ((of_char c :: nat) = of_char k)" for k by simp
  show "(c = CHR ''0'') = ((of_char c :: nat) = 48)" by (subst e) simp
  show "(c = CHR ''1'') = ((of_char c :: nat) = 49)" by (subst e) simp
  show "(c = CHR ''3'') = ((of_char c :: nat) = 51)" by (subst e) simp
  show "(c = CHR '' '') = ((of_char c :: nat) = 32)" by (subst e) simp
  show "(c = CHR ''.'') = ((of_char c :: nat) = 46)" by (subst e) simp
qed

lemma py_int_1: "a \<noteq> CHR '' '' \<Longrightarrow> py_int [a] = digit_value a"
  by (simp add: py_int_def)

lemma py_int_2: "a \<noteq> CHR '' '' \<Longrightarrow> py_int [a, b] = 10 * digit_value a + digit_value b"
  by (simp add: py_int_def)

lemma py_int_blank: "b \<noteq> CHR '' '' \<Longrightarrow> py_int [CHR '' '', b] = digit_value b"
  by (simp add: py_int_def)

lemma py_int_4:
  "a \<noteq> CHR '' '' \<Longrightarrow>
     py_int [a, b, c, d]
       = 1000 * digit_value a + 100 * digit_value b + 10 * digit_value c + digit_value d"
  by (simp add: py_int_def)

lemma list_shape:
  obtains "t = []" | a where "t = [a]" | a b where "t = [a, b]"
    | a b c r where "t = a # b # c # r"
proof (cases t)
  case Nil
  then show ?thesis using that by simp
next
  case (Cons a t1)
  show ?thesis
  proof (cases t1)
    case Nil
    with Cons show ?thesis using that by simp
  next
    case (Cons b t2)
    with \<open>t = a # t1\<close> show ?thesis using that by (cases t2) simp_all
  qed
qed

lemma d_group_iff:
  "(d, []) \<in> set (match_d d) \<longleftrightarrow> day_text d \<and> 1 \<le> py_int d \<and> py_int d \<le> 31"
proof (cases d rule: list_shape)
  case 1
  then show ?thesis by (simp add: match_d_def alt1_def alt2_def day_text_def)
next
  case (2 a)
  show ?thesis
  proof (cases "a = CHR '' ''")
    case True
    then show ?thesis
      using 2 by (simp add: match_d_def alt1_def alt2_def day_text_def chr_in_def ascii_digit_def)
  next
    case False
    then show ?thesis
      using 2 py_int_1 [OF False]
      by (auto simp: match_d_def alt1_def alt2_def day_text_def chr_in_def ascii_digit_def
          digit_value_def)
  qed
next
  case (3 a b)
  show ?thesis
  proof (cases "a = CHR '' ''")
    case True
    show ?thesis
    proof (cases "b = CHR '' ''")
      case True
      with \<open>a = CHR '' ''\<close> 3 show ?thesis
        by (simp add: match_d_def alt1_def alt2_def day_text_def chr_in_def ascii_digit_def)
    next
      case False
      with True 3 py_int_blank [OF False] show ?thesis
        by (auto simp: match_d_def alt1_def alt2_def day_text_def chr_in_def ascii_digit_def
          digit_value_def)
    qed
  next
    case False
    have "(([a, b], []) \<in> set (match_d [a, b])) =
        ((of_char a = (51::nat) \<and> 48 \<le> (of_char b::nat) \<and> (of_char b::nat) \<le> 49)
         \<or> (49 \<le> (of_char a::nat) \<and> (of_char a::nat) \<le> 50 \<and> ascii_digit b)
         \<or> (of_char a = (48::nat) \<and> 49 \<le> (of_char b::nat) \<and> (of_char b::nat) \<le> 57))"
      using False
      by (simp add: match_d_def alt1_def alt2_def chr_in_def char_eq_code)
    moreover have "py_int [a, b] = 10 * (int (of_char a) - 48) + (int (of_char b) - 48)"
      using py_int_2 [OF False] by (simp add: digit_value_def)
    ultimately show ?thesis
      using 3 False unfolding day_text_def ascii_digit_def
      by (simp add: char_eq_code) arith
  qed
next
  case (4 a b c r)
  then show ?thesis by (simp add: match_d_def alt1_def alt2_def day_text_def)
qed


lemma m_group_iff:
  "(m, []) \<in> set (match_m m) \<longleftrightarrow> month_text m \<and> 1 \<le> py_int m \<and> py_int m \<le> 12"
proof (cases m rule: list_shape)
  case 1
  then show ?thesis by (simp add: match_m_def alt1_def alt2_def month_text_def)
next
  case (2 a)
  show ?thesis
  proof (cases "a = CHR '' ''")
    case True
    then show ?thesis
      using 2 by (simp add: match_m_def alt1_def alt2_def month_text_def chr_in_def ascii_digit_def)
  next
    case False
    then show ?thesis
      using 2 py_int_1 [OF False]
      by (auto simp: match_m_def alt1_def alt2_def month_text_def chr_in_def ascii_digit_def
          digit_value_def)
  qed
next
  case (3 a b)
  show ?thesis
  proof (cases "a = CHR '' ''")
    case True
    with 3 show ?thesis
      by (simp add: match_m_def alt1_def alt2_def month_text_def chr_in_def ascii_digit_def)
  next
    case False
    have "(([a, b], []) \<in> set (match_m [a, b])) =
        ((of_char a = (49::nat) \<and> 48 \<le> (of_char b::nat) \<and> (of_char b::nat) \<le> 50)
         \<or> (of_char a = (48::nat) \<and> 49 \<le> (of_char b::nat) \<and> (of_char b::nat) \<le> 57))"
      by (simp add: match_m_def alt1_def alt2_def chr_in_def char_eq_code)
    moreover have "py_int [a, b] = 10 * (int (of_char a) - 48) + (int (of_char b) - 48)"
      using py_int_2 [OF False] by (simp add: digit_value_def)
    ultimately show ?thesis
      using 3 False unfolding month_text_def ascii_digit_def
      by (simp add: char_eq_code) arith
  qed
next
  case (4 a b c r)
  then show ?thesis by (simp add: match_m_def alt1_def alt2_def month_text_def)
qed

lemma ascii_digit_not_blank: "ascii_digit c \<Longrightarrow> c \<noteq> CHR '' ''"
  by (auto simp: ascii_digit_def)

lemma digit_value_range: "ascii_digit c \<Longrightarrow> 0 \<le> digit_value c \<and> digit_value c \<le> 9"
  by (auto simp: ascii_digit_def digit_value_def)

lemma year_text_shape:
  "year_text t \<longleftrightarrow>
     (\<exists>a b c d. t = [a, b, c, d] \<and> ascii_digit a \<and> ascii_digit b \<and> ascii_digit c \<and> ascii_digit d)"
proof -
  have len4: "length t = 4 \<longleftrightarrow> (\<exists>a b c d. t = [a, b, c, d])"
    by (auto simp: length_Suc_conv eval_nat_numeral)
  show ?thesis by (auto simp: year_text_def len4)
qed

lemma year_text_range: "year_text t \<Longrightarrow> 0 \<le> py_int t \<and> py_int t \<le> 9999"
proof -
  assume "year_text t"
  then obtain a b c d where t: "t = [a, b, c, d]"
    and dg: "ascii_digit a" "ascii_digit b" "ascii_digit c" "ascii_digit d"
    unfolding year_text_shape by blast
  have "py_int t = 1000 * digit_value a + 100 * digit_value b + 10 * digit_value c + digit_value d"
    using py_int_4 [OF ascii_digit_not_blank [OF dg(1)]] t by simp
  then show ?thesis
    using dg [THEN digit_value_range] by linarith
qed

lemma real_calendar_date_ranges:
  "real_calendar_date y m d \<Longrightarrow> 1 \<le> m \<and> m \<le> 12 \<and> 1 \<le> d \<and> d \<le> 31"
  by (auto simp: real_calendar_date_def split: if_splits)

lemma strptime_accepts_iff:
  "strptime_dmY s = Inr dt \<longleftrightarrow>
     (\<exists>td tm ty. s = td @ ''.'' @ tm @ ''.'' @ ty
        \<and> day_text td \<and> month_text tm \<and> year_text ty
        \<and> real_calendar_date (py_int ty) (py_int tm) (py_int td)
        \<and> dt = \<lparr>year = py_int ty, month = py_int tm, day = py_int td\<rparr>)"
  (is "?L \<longleftrightarrow> ?R")
proof
  assume ?L
  then obtain d m y where rm: "((d, m, y), []) \<in> set (regex_matches s)"
    and dn: "date_new (py_int y) (py_int m) (py_int d) = Inr dt"
    unfolding strptime_dmY_iff by blast
  from rm have "s = d @ ''.'' @ m @ ''.'' @ y" "day_text d" "month_text m" "year_text y"
    by (simp_all add: regex_matches_iff d_group_iff m_group_iff)
  moreover from dn have "real_calendar_date (py_int y) (py_int m) (py_int d)"
    "dt = \<lparr>year = py_int y, month = py_int m, day = py_int d\<rparr>"
    by (simp_all add: date_new_Inr_iff)
  ultimately show ?R by blast
next
  assume ?R
  then obtain td tm ty where s: "s = td @ ''.'' @ tm @ ''.'' @ ty"
    and t: "day_text td" "month_text tm" "year_text ty"
    and rc: "real_calendar_date (py_int ty) (py_int tm) (py_int td)"
    and dt: "dt = \<lparr>year = py_int ty, month = py_int tm, day = py_int td\<rparr>"
    by blast
  note rg = real_calendar_date_ranges [OF rc]
  have "((td, tm, ty), []) \<in> set (regex_matches s)"
    using s t rg by (simp add: regex_matches_iff d_group_iff m_group_iff)
  moreover have "date_new (py_int ty) (py_int tm) (py_int td) = Inr dt"
    using rc dt year_text_range [OF t(3)] by (simp add: date_new_Inr_iff)
  ultimately show ?L unfolding strptime_dmY_iff by blast
qed

lemma strptime_error: "strptime_dmY s = Inl e \<Longrightarrow> \<exists>m. e = ValueError m"
  by (auto simp: strptime_dmY_def date_new_def check_date_fields_def
      split: list.splits if_splits prod.splits)

lemma Birthday_init_Inr_iff:
  "Birthday_init s = Inr b \<longleftrightarrow> (\<exists>dt. strptime_dmY s = Inr dt \<and> b = Birthday dt)"
  by (auto simp: Birthday_init_def split: sum.splits error.splits)

lemma Birthday_init_Inl:
  "Birthday_init s = Inl e \<Longrightarrow> e = ValueError ''Invalid date format. Use DD.MM.YYYY''"
  using strptime_error [of s]
  by (auto simp: Birthday_init_def split: sum.splits error.splits)


lemma of_char_digit_char: "n < 10 \<Longrightarrow> (of_char (digit_char n) :: nat) = 48 + n"
  by (simp add: digit_char_def)

lemma ascii_digit_digit_char: "n < 10 \<Longrightarrow> ascii_digit (digit_char n)"
  by (simp add: ascii_digit_def of_char_digit_char)

lemma digit_value_digit_char: "n < 10 \<Longrightarrow> digit_value (digit_char n) = int n"
  by (simp add: digit_value_def of_char_digit_char)

lemma digit_char_digit_value: "ascii_digit c \<Longrightarrow> digit_char (nat (digit_value c)) = c"
proof -
  assume a: "ascii_digit c"
  define n where "n = (of_char c :: nat)"
  have "48 \<le> n" using a by (simp add: ascii_digit_def n_def)
  then have "48 + nat (int n - 48) = n" by linarith
  then show ?thesis by (simp add: digit_char_def digit_value_def n_def)
qed

lemma decimal_small: "n < 10 \<Longrightarrow> decimal n = [digit_char n]"
  by (simp add: decimal.simps)

lemma decimal_step: "10 \<le> n \<Longrightarrow> decimal n = decimal (n div 10) @ [digit_char (n mod 10)]"
  by (subst decimal.simps) simp

lemma zero_char: "CHR ''0'' = digit_char 0"
proof -
  have "char_of (of_char (CHR ''0'') :: nat) = CHR ''0''" by (rule char_of_char)
  then show ?thesis by (simp add: digit_char_def)
qed

lemma zero_pad_2:
  assumes "a < 10" "b < 10"
  shows "zero_pad 2 (int (10 * a + b)) = [digit_char a, digit_char b]"
proof (cases "a = 0")
  case True
  then show ?thesis
    unfolding zero_pad_def nat_int using assms by (simp add: decimal_small zero_char)
next
  case False
  then have "decimal (10 * a + b) = [digit_char a, digit_char b]"
    using assms by (simp add: decimal_step decimal_small)
  then show ?thesis unfolding zero_pad_def nat_int by simp
qed

lemma last_digit:
  fixes c q :: nat
  assumes "c < 10"
  shows "(c + q * 10) div 10 = q" and "(c + q * 10) mod 10 = c"
  using assms by simp_all

lemma decimal_3:
  assumes "a < 10" "b < 10" "c < 10" "a \<noteq> 0"
  shows "decimal (100 * a + 10 * b + c) = [digit_char a, digit_char b, digit_char c]"
proof -
  have e: "100 * a + 10 * b + c = c + (10 * a + b) * 10" by simp
  have "(100 * a + 10 * b + c) div 10 = 10 * a + b" "(100 * a + 10 * b + c) mod 10 = c"
    unfolding e using assms(3) by (rule last_digit)+
  moreover have "decimal (10 * a + b) = [digit_char a, digit_char b]"
    using assms by (simp add: decimal_step decimal_small)
  ultimately show ?thesis using assms by (simp add: decimal_step)
qed

lemma zero_pad_4:
  assumes "a < 10" "b < 10" "c < 10" "d < 10"
  shows "zero_pad 4 (int (1000 * a + 100 * b + 10 * c + d))
           = [digit_char a, digit_char b, digit_char c, digit_char d]"
proof (cases "a = 0")
  case a0: True
  show ?thesis
  proof (cases "b = 0")
    case b0: True
    show ?thesis
    proof (cases "c = 0")
      case True
      then show ?thesis
        unfolding zero_pad_def nat_int using a0 b0 assms
        by (simp add: decimal_small zero_char eval_nat_numeral)
    next
      case False
      then have "decimal (10 * c + d) = [digit_char c, digit_char d]"
        using assms by (simp add: decimal_step decimal_small)
      then show ?thesis
        unfolding zero_pad_def nat_int using a0 b0 by (simp add: zero_char eval_nat_numeral)
    qed
  next
    case False
    from decimal_3 [OF assms(2,3,4) False] show ?thesis
      unfolding zero_pad_def nat_int using a0 by (simp add: zero_char)
  qed
next
  case False
  have e: "1000 * a + 100 * b + 10 * c + d = d + (100 * a + 10 * b + c) * 10" by simp
  have "(1000 * a + 100 * b + 10 * c + d) div 10 = 100 * a + 10 * b + c"
    "(1000 * a + 100 * b + 10 * c + d) mod 10 = d"
    unfolding e using assms(4) by (rule last_digit)+
  then have "decimal (1000 * a + 100 * b + 10 * c + d)
      = [digit_char a, digit_char b, digit_char c, digit_char d]"
    using decimal_3 [OF assms(1,2,3) False] False assms by (simp add: decimal_step)
  then show ?thesis unfolding zero_pad_def nat_int by simp
qed

lemma decimal_4:
  assumes "a < 10" "b < 10" "c < 10" "d < 10" "a \<noteq> 0"
  shows "decimal (1000 * a + 100 * b + 10 * c + d)
           = [digit_char a, digit_char b, digit_char c, digit_char d]"
proof -
  have e: "1000 * a + 100 * b + 10 * c + d = d + (100 * a + 10 * b + c) * 10" by simp
  have "(1000 * a + 100 * b + 10 * c + d) div 10 = 100 * a + 10 * b + c"
    "(1000 * a + 100 * b + 10 * c + d) mod 10 = d"
    unfolding e using assms(4) by (rule last_digit)+
  then show ?thesis
    using decimal_3 [OF assms(1,2,3,5)] assms by (simp add: decimal_step)
qed

lemma strftime_Y_digits:
  assumes "a < 10" "b < 10" "c < 10" "d < 10" "padded \<or> a \<noteq> 0"
  shows "strftime_Y padded (int (1000 * a + 100 * b + 10 * c + d))
           = [digit_char a, digit_char b, digit_char c, digit_char d]"
proof (cases padded)
  case True
  then show ?thesis using zero_pad_4 [OF assms(1-4)] by (simp only: strftime_Y_def if_True)
next
  case False
  then have "a \<noteq> 0" using assms(5) by simp
  from decimal_4 [OF assms(1-4) this] False show ?thesis
    unfolding strftime_Y_def nat_int by simp
qed

lemma zero_pad_2_digits:
  assumes "ascii_digit a" "ascii_digit b"
  shows "zero_pad 2 (py_int [a, b]) = [a, b]"
proof -
  let ?x = "nat (digit_value a)" and ?y = "nat (digit_value b)"
  have r: "?x < 10" "?y < 10" "int ?x = digit_value a" "int ?y = digit_value b"
    using assms [THEN digit_value_range] by auto
  have "py_int [a, b] = int (10 * ?x + ?y)"
    using py_int_2 [OF ascii_digit_not_blank [OF assms(1)]] r by simp
  then show ?thesis
    using zero_pad_2 [OF r(1,2)] assms by (simp add: digit_char_digit_value)
qed

lemma zero_pad_4_digits:
  assumes "ascii_digit a" "ascii_digit b" "ascii_digit c" "ascii_digit d"
  shows "zero_pad 4 (py_int [a, b, c, d]) = [a, b, c, d]"
proof -
  let ?x = "nat (digit_value a)" and ?y = "nat (digit_value b)"
  let ?z = "nat (digit_value c)" and ?w = "nat (digit_value d)"
  have r: "?x < 10" "?y < 10" "?z < 10" "?w < 10"
    and i: "int ?x = digit_value a" "int ?y = digit_value b"
      "int ?z = digit_value c" "int ?w = digit_value d"
    using assms [THEN digit_value_range] by auto
  have "py_int [a, b, c, d] = int (1000 * ?x + 100 * ?y + 10 * ?z + ?w)"
    using py_int_4 [OF ascii_digit_not_blank [OF assms(1)]] i by simp
  then show ?thesis
    using zero_pad_4 [OF r] assms by (simp add: digit_char_digit_value)
qed


lemma strftime_Y_digits_text:
  assumes "ascii_digit a" "ascii_digit b" "ascii_digit c" "ascii_digit d"
    and "padded \<or> 1000 \<le> py_int [a, b, c, d]"
  shows "strftime_Y padded (py_int [a, b, c, d]) = [a, b, c, d]"
proof -
  let ?x = "nat (digit_value a)" and ?y = "nat (digit_value b)"
  let ?z = "nat (digit_value c)" and ?w = "nat (digit_value d)"
  have r: "?x < 10" "?y < 10" "?z < 10" "?w < 10"
    and i: "int ?x = digit_value a" "int ?y = digit_value b"
      "int ?z = digit_value c" "int ?w = digit_value d"
    using assms(1-4) [THEN digit_value_range] by auto
  have p: "py_int [a, b, c, d] = int (1000 * ?x + 100 * ?y + 10 * ?z + ?w)"
    using py_int_4 [OF ascii_digit_not_blank [OF assms(1)]] i by simp
  have "padded \<or> ?x \<noteq> 0"
  proof (cases padded)
    case True
    then show ?thesis by simp
  next
    case False
    then have "1000 \<le> int (1000 * ?x + 100 * ?y + 10 * ?z + ?w)"
      using assms(5) p by simp
    then have "1000 \<le> 1000 * ?x + 100 * ?y + 10 * ?z + ?w" by linarith
    then have "?x \<noteq> 0" using r by linarith
    then show ?thesis by simp
  qed
  from strftime_Y_digits [OF r this] show ?thesis
    unfolding p using assms(1-4) by (simp add: digit_char_digit_value)
qed

lemma matches_shape:
  "matches_DD_MM_YYYY s \<longleftrightarrow>
     (\<exists>d1 d2 m1 m2 y1 y2 y3 y4.
        s = [d1, d2, CHR ''.'', m1, m2, CHR ''.'', y1, y2, y3, y4]
        \<and> ascii_digit d1 \<and> ascii_digit d2 \<and> ascii_digit m1 \<and> ascii_digit m2
        \<and> ascii_digit y1 \<and> ascii_digit y2 \<and> ascii_digit y3 \<and> ascii_digit y4)"
  (is "?L \<longleftrightarrow> ?R")
proof
  assume ?L
  then show ?R
    unfolding matches_DD_MM_YYYY_def by (simp split: list.splits)
next
  assume ?R
  then show ?L
    unfolding matches_DD_MM_YYYY_def by auto
qed




lemma parse_accepts:
  assumes m: "matches_DD_MM_YYYY s"
    and rc: "real_calendar_date (year_of_text s) (month_of_text s) (day_of_text s)"
  shows "strptime_dmY s
           = Inr \<lparr>year = year_of_text s, month = month_of_text s, day = day_of_text s\<rparr>"
proof -
  from m obtain d1 d2 m1 m2 y1 y2 y3 y4 where
    s: "s = [d1, d2, CHR ''.'', m1, m2, CHR ''.'', y1, y2, y3, y4]"
    and dg: "ascii_digit d1" "ascii_digit d2" "ascii_digit m1" "ascii_digit m2"
      "ascii_digit y1" "ascii_digit y2" "ascii_digit y3" "ascii_digit y4"
    unfolding matches_shape by blast
  have f: "day_of_text s = py_int [d1, d2]" "month_of_text s = py_int [m1, m2]"
    "year_of_text s = py_int [y1, y2, y3, y4]"
    by (simp_all add: s day_of_text_def month_of_text_def year_of_text_def)
  have "s = [d1, d2] @ ''.'' @ [m1, m2] @ ''.'' @ [y1, y2, y3, y4]"
    by (simp add: s)
  moreover have "day_text [d1, d2]" "month_text [m1, m2]" "year_text [y1, y2, y3, y4]"
    using dg by (simp_all add: day_text_def month_text_def year_text_def)
  ultimately show ?thesis
    unfolding strptime_accepts_iff f using rc [unfolded f] by blast
qed

lemma parse_then_format:
  assumes m: "matches_DD_MM_YYYY s"
    and pl: "padded \<or> 1000 \<le> year_of_text s"
  shows "strftime_dmY padded
           \<lparr>year = year_of_text s, month = month_of_text s, day = day_of_text s\<rparr>
           = s"
proof -
  from m obtain d1 d2 m1 m2 y1 y2 y3 y4 where
    s: "s = [d1, d2, CHR ''.'', m1, m2, CHR ''.'', y1, y2, y3, y4]"
    and dg: "ascii_digit d1" "ascii_digit d2" "ascii_digit m1" "ascii_digit m2"
      "ascii_digit y1" "ascii_digit y2" "ascii_digit y3" "ascii_digit y4"
    unfolding matches_shape by blast
  have f: "day_of_text s = py_int [d1, d2]" "month_of_text s = py_int [m1, m2]"
    "year_of_text s = py_int [y1, y2, y3, y4]"
    by (simp_all add: s day_of_text_def month_of_text_def year_of_text_def)
  show ?thesis
    unfolding f strftime_dmY_def
    using dg pl [unfolded f]
    by (simp add: zero_pad_2_digits strftime_Y_digits_text s)
qed

lemma two_digits:
  fixes n :: int
  assumes "0 \<le> n" "n \<le> 99"
  obtains a b where "a < 10" "b < 10" "n = int (10 * a + b)"
proof -
  let ?k = "nat n"
  have "?k < 100" using assms by linarith
  then have "?k div 10 < 10" by (simp add: less_mult_imp_div_less)
  moreover have "?k mod 10 < 10" by simp
  moreover have "?k = 10 * (?k div 10) + ?k mod 10" by simp
  then have "n = int (10 * (?k div 10) + ?k mod 10)" using assms by linarith
  ultimately show ?thesis using that by blast
qed

lemma four_digits:
  fixes n :: int
  assumes "0 \<le> n" "n \<le> 9999"
  obtains a b c d where "a < 10" "b < 10" "c < 10" "d < 10"
    "n = int (1000 * a + 100 * b + 10 * c + d)"
proof -
  define k where "k = nat n"
  define q1 where "q1 = k div 10"
  define q2 where "q2 = q1 div 10"
  define q3 where "q3 = q2 div 10"
  have k: "k < 10000" using assms by (simp add: k_def)
  have e1: "k = 10 * q1 + k mod 10" by (simp add: q1_def)
  have e2: "q1 = 10 * q2 + q1 mod 10" by (simp add: q2_def)
  have e3: "q2 = 10 * q3 + q2 mod 10" by (simp add: q3_def)
  have "q1 < 1000" unfolding q1_def using k by (simp add: less_mult_imp_div_less)
  then have "q2 < 100" unfolding q2_def by (simp add: less_mult_imp_div_less)
  then have a: "q3 < 10" unfolding q3_def by (simp add: less_mult_imp_div_less)
  have r: "q2 mod 10 < 10" "q1 mod 10 < 10" "k mod 10 < 10" by simp_all
  have "k = 1000 * q3 + 100 * (q2 mod 10) + 10 * (q1 mod 10) + k mod 10"
    using e1 e2 e3 by linarith
  then have "n = int (1000 * q3 + 100 * (q2 mod 10) + 10 * (q1 mod 10) + k mod 10)"
    using assms by (simp add: k_def)
  then show ?thesis using that [OF a r] by blast
qed

lemma format_then_parse:
  assumes v: "valid_date dt" and pl: "padded \<or> 1000 \<le> year dt"
  shows "matches_DD_MM_YYYY (strftime_dmY padded dt)"
    and "strptime_dmY (strftime_dmY padded dt) = Inr dt"
proof -
  have vd: "1 \<le> year dt" "year dt \<le> 9999" "1 \<le> month dt" "month dt \<le> 12" "1 \<le> day dt"
    "day dt \<le> days_in_month (year dt) (month dt)"
    using v by (simp_all add: valid_date_def)
  have rc: "real_calendar_date (year dt) (month dt) (day dt)"
    using date_new_of_valid [OF v] unfolding date_new_Inr_iff by simp
  have b: "0 \<le> day dt" "day dt \<le> 99" "0 \<le> month dt" "month dt \<le> 99"
    "0 \<le> year dt" "year dt \<le> 9999"
    using real_calendar_date_ranges [OF rc] vd by simp_all
  obtain d1 d2 where d: "d1 < 10" "d2 < 10" "day dt = int (10 * d1 + d2)"
    by (rule two_digits [OF b(1,2)])
  obtain m1 m2 where m: "m1 < 10" "m2 < 10" "month dt = int (10 * m1 + m2)"
    by (rule two_digits [OF b(3,4)])
  obtain y1 y2 y3 y4 where y: "y1 < 10" "y2 < 10" "y3 < 10" "y4 < 10"
    "year dt = int (1000 * y1 + 100 * y2 + 10 * y3 + y4)"
    by (rule four_digits [OF b(5,6)])
  have y0: "padded \<or> y1 \<noteq> 0"
  proof (cases padded)
    case True
    then show ?thesis by simp
  next
    case False
    then have "1000 \<le> 1000 * y1 + 100 * y2 + 10 * y3 + y4" using pl y(5) by linarith
    then have "y1 \<noteq> 0" using y(2-4) by linarith
    then show ?thesis by simp
  qed
  let ?s = "[digit_char d1, digit_char d2, CHR ''.'', digit_char m1, digit_char m2, CHR ''.'',
             digit_char y1, digit_char y2, digit_char y3, digit_char y4]"
  have z: "zero_pad 2 (day dt) = [digit_char d1, digit_char d2]"
    "zero_pad 2 (month dt) = [digit_char m1, digit_char m2]"
    "strftime_Y padded (year dt)
       = [digit_char y1, digit_char y2, digit_char y3, digit_char y4]"
    unfolding d(3) m(3) y(5)
    by (rule zero_pad_2 [OF d(1,2)], rule zero_pad_2 [OF m(1,2)],
        rule strftime_Y_digits [OF y(1-4) y0])
  have s: "strftime_dmY padded dt = ?s"
    unfolding strftime_dmY_def z by simp
  have dg: "ascii_digit (digit_char d1)" "ascii_digit (digit_char d2)"
    "ascii_digit (digit_char m1)" "ascii_digit (digit_char m2)"
    "ascii_digit (digit_char y1)" "ascii_digit (digit_char y2)"
    "ascii_digit (digit_char y3)" "ascii_digit (digit_char y4)"
    using d(1,2) m(1,2) y(1-4) by (simp_all add: ascii_digit_digit_char)
  have ms: "matches_DD_MM_YYYY ?s"
    unfolding matches_DD_MM_YYYY_def using dg by simp
  then show "matches_DD_MM_YYYY (strftime_dmY padded dt)"
    unfolding s .
  have p2: "py_int [digit_char a, digit_char b] = int (10 * a + b)"
    if "a < 10" "b < 10" for a b
    using py_int_2 [OF ascii_digit_not_blank [OF ascii_digit_digit_char [OF that(1)]]] that
    by (simp add: digit_value_digit_char)
  have p4: "py_int [digit_char a, digit_char b, digit_char c, digit_char e]
      = int (1000 * a + 100 * b + 10 * c + e)"
    if "a < 10" "b < 10" "c < 10" "e < 10" for a b c e
    using py_int_4 [OF ascii_digit_not_blank [OF ascii_digit_digit_char [OF that(1)]]] that
    by (simp add: digit_value_digit_char)
  have f: "day_of_text ?s = day dt" "month_of_text ?s = month dt" "year_of_text ?s = year dt"
    unfolding day_of_text_def month_of_text_def year_of_text_def d(3) m(3) y(5)
    using p2 [OF d(1,2)] p2 [OF m(1,2)] p4 [OF y(1-4)] by simp_all
  have "strptime_dmY ?s = Inr \<lparr>year = year dt, month = month dt, day = day dt\<rparr>"
    using parse_accepts [OF ms] rc unfolding f by simp
  then show "strptime_dmY (strftime_dmY padded dt) = Inr dt"
    unfolding s by simp
qed


subsection \<open>The parser on a text of any code points\<close>

lemma nd_value_cases:
  obtains "nd_value zs c = None" "\<forall>z\<in>set zs. \<not> (z \<le> c \<and> c \<le> z + 9)"
  | z where "nd_value zs c = Some (c - z)" "z \<in> set zs" "z \<le> c" "c \<le> z + 9"
proof (cases "filter (\<lambda>z. z \<le> c \<and> c \<le> z + 9) zs")
  case Nil
  then have "\<forall>z\<in>set zs. \<not> (z \<le> c \<and> c \<le> z + 9)"
    by (simp add: filter_empty_conv)
  with Nil that(1) show ?thesis by (simp add: nd_value_def)
next
  case (Cons z rest)
  then have "z \<in> set (filter (\<lambda>z. z \<le> c \<and> c \<le> z + 9) zs)" by simp
  then have "z \<in> set zs" "z \<le> c" "c \<le> z + 9" by simp_all
  with Cons that(2) show ?thesis by (simp add: nd_value_def)
qed

lemma nd_value_le_9: "nd_value zs c = Some v \<Longrightarrow> v \<le> 9"
  by (cases zs c rule: nd_value_cases) auto

lemma ascii_table_D:
  assumes "ascii_table zs"
  shows "48 \<in> set zs" and "\<And>z. z \<in> set zs \<Longrightarrow> z = 48 \<or> 57 < z"
  using assms by (auto simp: ascii_table_def list_all_iff)

lemma nd_value_ascii:
  assumes t: "ascii_table zs" and c: "48 \<le> c" "c \<le> 57"
  shows "nd_value zs c = Some (c - 48)"
proof (cases zs c rule: nd_value_cases)
  case 1
  with ascii_table_D(1) [OF t] c show ?thesis by auto
next
  case (2 z)
  with ascii_table_D(2) [OF t, of z] c have "z = 48" by auto
  with 2 show ?thesis by simp
qed

lemma nd_value_below:
  assumes t: "ascii_table zs" and c: "c < 48"
  shows "nd_value zs c = None"
proof (cases zs c rule: nd_value_cases)
  case 1
  then show ?thesis by simp
next
  case (2 z)
  with ascii_table_D(2) [OF t, of z] c show ?thesis by auto
qed

lemma is_nd_ascii: "ascii_table zs \<Longrightarrow> cp_in c 48 57 \<Longrightarrow> is_nd zs c"
  by (simp add: is_nd_def cp_in_def nd_value_ascii)

lemma u_digit_value_ascii:
  "ascii_table zs \<Longrightarrow> cp_in c 48 57 \<Longrightarrow> u_digit_value zs c = int c - 48"
  by (simp add: u_digit_value_def cp_in_def nd_value_ascii)

lemma u_digit_value_range: "0 \<le> u_digit_value zs c \<and> u_digit_value zs c \<le> 9"
  by (auto simp: u_digit_value_def dest: nd_value_le_9 split: option.splits)

lemma is_nd_not_low: "ascii_table zs \<Longrightarrow> is_nd zs c \<Longrightarrow> 48 \<le> c"
  using nd_value_below [of zs c] by (cases "c < 48") (simp_all add: is_nd_def)

lemma u_match_dot_iff: "r \<in> set (u_match_dot s) \<longleftrightarrow> s = 46 # r"
  by (auto simp: u_match_dot_def split: list.splits)

lemma len4: "length t = 4 \<longleftrightarrow> (\<exists>a b c d. t = [a, b, c, d])"
  by (auto simp: length_Suc_conv eval_nat_numeral)

lemma u_match_Y_iff:
  "(t, r) \<in> set (u_match_Y zs s) \<longleftrightarrow> s = t @ r \<and> u_year_text zs t"
  by (auto simp: u_match_Y_def u_year_text_def len4 split: list.splits)

lemma u_match_d_iff:
  "(t, r) \<in> set (u_match_d zs s) \<longleftrightarrow> s = t @ r \<and> (t, []) \<in> set (u_match_d zs t)"
  unfolding u_match_d_def set_append Un_iff
  by (subst (1 2 3 4) alt2_split, subst alt1_split) blast

lemma u_match_m_iff:
  "(t, r) \<in> set (u_match_m s) \<longleftrightarrow> s = t @ r \<and> (t, []) \<in> set (u_match_m t)"
  unfolding u_match_m_def set_append Un_iff
  by (subst (1 2) alt2_split, subst alt1_split) blast

lemma u_regex_matches_chain:
  "((d, m, y), r) \<in> set (u_regex_matches zs s) \<longleftrightarrow>
     (\<exists>r1 r2 r3 r4. (d, r1) \<in> set (u_match_d zs s) \<and> r2 \<in> set (u_match_dot r1)
        \<and> (m, r3) \<in> set (u_match_m r2) \<and> r4 \<in> set (u_match_dot r3)
        \<and> (y, r) \<in> set (u_match_Y zs r4))"
  unfolding u_regex_matches_def by (simp add: split_beta) force

lemma u_regex_matches_iff:
  "((d, m, y), r) \<in> set (u_regex_matches zs s) \<longleftrightarrow>
     s = d @ [46] @ m @ [46] @ y @ r
     \<and> (d, []) \<in> set (u_match_d zs d) \<and> (m, []) \<in> set (u_match_m m) \<and> u_year_text zs y"
  (is "?L \<longleftrightarrow> ?R")
proof
  assume ?L
  then obtain r1 r2 r3 r4 where c: "(d, r1) \<in> set (u_match_d zs s)" "r2 \<in> set (u_match_dot r1)"
    "(m, r3) \<in> set (u_match_m r2)" "r4 \<in> set (u_match_dot r3)"
    "(y, r) \<in> set (u_match_Y zs r4)"
    unfolding u_regex_matches_chain by blast
  from c(1) have 1: "s = d @ r1" "(d, []) \<in> set (u_match_d zs d)"
    using u_match_d_iff [of d r1 zs s] by simp_all
  from c(2) have 2: "r1 = 46 # r2" by (simp add: u_match_dot_iff)
  from c(3) have 3: "r2 = m @ r3" "(m, []) \<in> set (u_match_m m)"
    using u_match_m_iff [of m r3 r2] by simp_all
  from c(4) have 4: "r3 = 46 # r4" by (simp add: u_match_dot_iff)
  from c(5) have 5: "r4 = y @ r" "u_year_text zs y" by (simp_all add: u_match_Y_iff)
  show ?R using 1 2 3 4 5 by simp
next
  assume R: ?R
  let ?r4 = "y @ r"
  let ?r3 = "46 # ?r4"
  let ?r2 = "m @ ?r3"
  let ?r1 = "46 # ?r2"
  have "(d, ?r1) \<in> set (u_match_d zs s)" using R u_match_d_iff [of d ?r1 zs s] by simp
  moreover have "?r2 \<in> set (u_match_dot ?r1)" by (simp add: u_match_dot_iff)
  moreover have "(m, ?r3) \<in> set (u_match_m ?r2)" using R u_match_m_iff [of m ?r3 ?r2] by simp
  moreover have "?r4 \<in> set (u_match_dot ?r3)" by (simp add: u_match_dot_iff)
  moreover have "(y, r) \<in> set (u_match_Y zs ?r4)" using R by (simp add: u_match_Y_iff)
  ultimately show ?L unfolding u_regex_matches_chain by blast
qed

lemma u_match_d_no_dot:
  "ascii_table zs \<Longrightarrow> (d, []) \<in> set (u_match_d zs d) \<Longrightarrow> 46 \<notin> set d"
  unfolding u_match_d_def set_append Un_iff alt2_iff alt1_iff
  by (auto simp: cp_in_def dest: is_nd_not_low)

lemma u_match_m_no_dot: "(m, []) \<in> set (u_match_m m) \<Longrightarrow> 46 \<notin> set m"
  unfolding u_match_m_def set_append Un_iff alt2_iff alt1_iff
  by (auto simp: cp_in_def)

lemma u_regex_matches_unique:
  assumes t: "ascii_table zs"
    and "((d, m, y), r) \<in> set (u_regex_matches zs s)"
    and "((d', m', y'), r') \<in> set (u_regex_matches zs s)"
  shows "d' = d \<and> m' = m \<and> y' = y \<and> r' = r"
proof -
  from assms(2) have a: "s = d @ 46 # m @ 46 # y @ r"
    "46 \<notin> set d" "46 \<notin> set m" "length y = 4"
    by (simp_all add: u_regex_matches_iff u_match_d_no_dot [OF t] u_match_m_no_dot
        u_year_text_def)
  from assms(3) have b: "s = d' @ 46 # m' @ 46 # y' @ r'"
    "46 \<notin> set d'" "46 \<notin> set m'" "length y' = 4"
    by (simp_all add: u_regex_matches_iff u_match_d_no_dot [OF t] u_match_m_no_dot
        u_year_text_def)
  have "d @ 46 # (m @ 46 # y @ r) = d' @ 46 # (m' @ 46 # y' @ r')"
    using a(1) b(1) by simp
  from split_at_first [OF a(2) b(2) this]
  have 1: "d = d'" "m @ 46 # (y @ r) = m' @ 46 # (y' @ r')" by simp_all
  from split_at_first [OF a(3) b(3) 1(2)]
  have 2: "m = m'" "y @ r = y' @ r'" by simp_all
  then have "y = y' \<and> r = r'" using a(4) b(4) by simp
  with 1 2 show ?thesis by simp
qed

lemma u_strptime_dmY_iff:
  assumes t: "ascii_table zs"
  shows "u_strptime_dmY zs s = Inr dt \<longleftrightarrow>
     (\<exists>d m y. ((d, m, y), []) \<in> set (u_regex_matches zs s)
        \<and> date_new (u_py_int zs y) (u_py_int zs m) (u_py_int zs d) = Inr dt)"
  (is "?L \<longleftrightarrow> ?R")
proof
  assume L: ?L
  then obtain x xs where xs: "u_regex_matches zs s = x # xs"
    by (cases "u_regex_matches zs s") (simp_all add: u_strptime_dmY_def)
  obtain d m y r where x: "x = ((d, m, y), r)" by (cases x) auto
  have "r = []" using L xs x by (simp add: u_strptime_dmY_def split: if_splits)
  moreover from this have "date_new (u_py_int zs y) (u_py_int zs m) (u_py_int zs d) = Inr dt"
    using L xs x by (simp add: u_strptime_dmY_def)
  moreover have "x \<in> set (u_regex_matches zs s)" using xs by simp
  ultimately show ?R using x by blast
next
  assume ?R
  then obtain d m y where e: "((d, m, y), []) \<in> set (u_regex_matches zs s)"
    and dn: "date_new (u_py_int zs y) (u_py_int zs m) (u_py_int zs d) = Inr dt" by blast
  then obtain x xs where xs: "u_regex_matches zs s = x # xs"
    by (cases "u_regex_matches zs s") auto
  obtain d' m' y' r' where x: "x = ((d', m', y'), r')" by (cases x) auto
  have "((d', m', y'), r') \<in> set (u_regex_matches zs s)" using xs x by simp
  from u_regex_matches_unique [OF t e this] have "x = ((d, m, y), [])" using x by simp
  then show ?L using xs dn by (simp add: u_strptime_dmY_def)
qed

lemma u_py_int_1: "a \<noteq> 32 \<Longrightarrow> u_py_int zs [a] = u_digit_value zs a"
  by (simp add: u_py_int_def)

lemma u_py_int_2:
  "a \<noteq> 32 \<Longrightarrow> u_py_int zs [a, b] = 10 * u_digit_value zs a + u_digit_value zs b"
  by (simp add: u_py_int_def)

lemma u_py_int_blank: "b \<noteq> 32 \<Longrightarrow> u_py_int zs [32, b] = u_digit_value zs b"
  by (simp add: u_py_int_def)

lemma u_py_int_4:
  "a \<noteq> 32 \<Longrightarrow>
     u_py_int zs [a, b, c, d]
       = 1000 * u_digit_value zs a + 100 * u_digit_value zs b + 10 * u_digit_value zs c
         + u_digit_value zs d"
  by (simp add: u_py_int_def)

lemma is_nd_not_blank: "ascii_table zs \<Longrightarrow> is_nd zs c \<Longrightarrow> c \<noteq> 32"
  using is_nd_not_low [of zs c] by auto

lemma u_digit_value_blank: "ascii_table zs \<Longrightarrow> u_digit_value zs 32 = 0"
  by (simp add: u_digit_value_def nd_value_below)

lemma u_d_group_iff:
  assumes t: "ascii_table zs"
  shows "(d, []) \<in> set (u_match_d zs d)
     \<longleftrightarrow> u_day_text zs d \<and> 1 \<le> u_py_int zs d \<and> u_py_int zs d \<le> 31"
proof (cases d rule: list_shape)
  case 1
  then show ?thesis by (simp add: u_match_d_def alt1_def alt2_def u_day_text_def)
next
  case (2 a)
  show ?thesis
  proof (cases "cp_in a 48 57")
    case True
    then have "a \<noteq> 32" by (auto simp: cp_in_def)
    from u_py_int_1 [OF this] u_digit_value_ascii [OF t True] True show ?thesis
      using 2 by (auto simp: u_match_d_def alt1_def alt2_def u_day_text_def cp_in_def)
  next
    case False
    then show ?thesis
      using 2 by (auto simp: u_match_d_def alt1_def alt2_def u_day_text_def cp_in_def)
  qed
next
  case (3 a b)
  have m: "(([a, b], []) \<in> set (u_match_d zs [a, b])) =
        ((a = 51 \<and> cp_in b 48 49) \<or> (cp_in a 49 50 \<and> is_nd zs b)
         \<or> (a = 48 \<and> cp_in b 49 57) \<or> (a = 32 \<and> cp_in b 49 57))"
    by (auto simp: u_match_d_def alt1_def alt2_def)
  show ?thesis
  proof (cases "a = 32")
    case True
    show ?thesis
    proof (cases "cp_in b 48 57")
      case b: True
      then have "b \<noteq> 32" by (auto simp: cp_in_def)
      from u_py_int_blank [OF this] u_digit_value_ascii [OF t b] b True show ?thesis
        unfolding 3 m by (auto simp: u_day_text_def cp_in_def)
    next
      case False
      with True show ?thesis
        unfolding 3 m by (auto simp: u_day_text_def cp_in_def dest: is_nd_not_low [OF t])
    qed
  next
    case a: False
    note v = u_py_int_2 [OF a, of zs b]
    show ?thesis
    proof (cases "cp_in a 48 57")
      case da: True
      note va = u_digit_value_ascii [OF t da]
      show ?thesis
      proof (cases "cp_in b 48 57")
        case db: True
        note vb = u_digit_value_ascii [OF t db]
        have nb: "is_nd zs b" by (rule is_nd_ascii [OF t db])
        have "u_py_int zs [a, b] = 10 * (int a - 48) + (int b - 48)"
          using v va vb by simp
        then show ?thesis
          using da db nb unfolding 3 m u_day_text_def cp_in_def
          by simp arith
      next
        case nb: False
        have r: "0 \<le> u_digit_value zs b \<and> u_digit_value zs b \<le> 9"
          by (rule u_digit_value_range)
        have "(cp_in a 49 50 \<and> is_nd zs b) \<Longrightarrow> 1 \<le> u_py_int zs [a, b] \<and> u_py_int zs [a, b] \<le> 31"
          using v va r by (auto simp: cp_in_def)
        then show ?thesis
          using da nb a unfolding 3 m u_day_text_def
          by (auto simp: cp_in_def)
      qed
    next
      case na: False
      then show ?thesis
        using a unfolding 3 m u_day_text_def by (auto simp: cp_in_def)
    qed
  qed
next
  case (4 a b c r)
  then show ?thesis by (simp add: u_match_d_def alt1_def alt2_def u_day_text_def)
qed

lemma u_m_group_iff:
  assumes t: "ascii_table zs"
  shows "(m, []) \<in> set (u_match_m m)
     \<longleftrightarrow> u_month_text m \<and> 1 \<le> u_py_int zs m \<and> u_py_int zs m \<le> 12"
proof (cases m rule: list_shape)
  case 1
  then show ?thesis by (simp add: u_match_m_def alt1_def alt2_def u_month_text_def)
next
  case (2 a)
  show ?thesis
  proof (cases "cp_in a 48 57")
    case True
    then have "a \<noteq> 32" by (auto simp: cp_in_def)
    from u_py_int_1 [OF this] u_digit_value_ascii [OF t True] True show ?thesis
      using 2 by (auto simp: u_match_m_def alt1_def alt2_def u_month_text_def cp_in_def)
  next
    case False
    then show ?thesis
      using 2 by (auto simp: u_match_m_def alt1_def alt2_def u_month_text_def cp_in_def)
  qed
next
  case (3 a b)
  have m: "(([a, b], []) \<in> set (u_match_m [a, b])) =
        ((a = 49 \<and> cp_in b 48 50) \<or> (a = 48 \<and> cp_in b 49 57))"
    by (auto simp: u_match_m_def alt1_def alt2_def)
  show ?thesis
  proof (cases "cp_in a 48 57 \<and> cp_in b 48 57")
    case True
    then have a: "a \<noteq> 32" by (auto simp: cp_in_def)
    have "u_py_int zs [a, b] = 10 * (int a - 48) + (int b - 48)"
      using u_py_int_2 [OF a, of zs b] True u_digit_value_ascii [OF t] by simp
    then show ?thesis
      using True unfolding 3 m u_month_text_def cp_in_def
      by simp arith
  next
    case False
    then show ?thesis
      unfolding 3 m u_month_text_def by (auto simp: cp_in_def)
  qed
next
  case (4 a b c r)
  then show ?thesis by (simp add: u_match_m_def alt1_def alt2_def u_month_text_def)
qed

lemma u_year_text_range:
  assumes t: "ascii_table zs" and y: "u_year_text zs ty"
  shows "0 \<le> u_py_int zs ty \<and> u_py_int zs ty \<le> 9999"
proof -
  from y obtain a b c d where ty: "ty = [a, b, c, d]" and "is_nd zs a"
    by (auto simp: u_year_text_def len4)
  then have "a \<noteq> 32" using is_nd_not_blank [OF t] by blast
  from u_py_int_4 [OF this, of zs b c d] ty
  have "u_py_int zs ty = 1000 * u_digit_value zs a + 100 * u_digit_value zs b
          + 10 * u_digit_value zs c + u_digit_value zs d" by simp
  then show ?thesis
    using u_digit_value_range [of zs a] u_digit_value_range [of zs b]
      u_digit_value_range [of zs c] u_digit_value_range [of zs d]
    by linarith
qed

lemma u_strptime_accepts_iff:
  assumes t: "ascii_table zs"
  shows "u_strptime_dmY zs s = Inr dt \<longleftrightarrow>
     (\<exists>td tm ty. s = td @ [46] @ tm @ [46] @ ty
        \<and> u_day_text zs td \<and> u_month_text tm \<and> u_year_text zs ty
        \<and> real_calendar_date (u_py_int zs ty) (u_py_int zs tm) (u_py_int zs td)
        \<and> dt = \<lparr>year = u_py_int zs ty, month = u_py_int zs tm, day = u_py_int zs td\<rparr>)"
  (is "?L \<longleftrightarrow> ?R")
proof
  assume ?L
  then obtain d m y where rm: "((d, m, y), []) \<in> set (u_regex_matches zs s)"
    and dn: "date_new (u_py_int zs y) (u_py_int zs m) (u_py_int zs d) = Inr dt"
    unfolding u_strptime_dmY_iff [OF t] by blast
  from rm have "s = d @ [46] @ m @ [46] @ y" "u_day_text zs d" "u_month_text m"
    "u_year_text zs y"
    by (simp_all add: u_regex_matches_iff u_d_group_iff [OF t] u_m_group_iff [OF t])
  moreover from dn have "real_calendar_date (u_py_int zs y) (u_py_int zs m) (u_py_int zs d)"
    "dt = \<lparr>year = u_py_int zs y, month = u_py_int zs m, day = u_py_int zs d\<rparr>"
    by (simp_all add: date_new_Inr_iff)
  ultimately show ?R by blast
next
  assume ?R
  then obtain td tm ty where s: "s = td @ [46] @ tm @ [46] @ ty"
    and x: "u_day_text zs td" "u_month_text tm" "u_year_text zs ty"
    and rc: "real_calendar_date (u_py_int zs ty) (u_py_int zs tm) (u_py_int zs td)"
    and dt: "dt = \<lparr>year = u_py_int zs ty, month = u_py_int zs tm, day = u_py_int zs td\<rparr>"
    by blast
  note rg = real_calendar_date_ranges [OF rc]
  have "((td, tm, ty), []) \<in> set (u_regex_matches zs s)"
    using s x rg by (simp add: u_regex_matches_iff u_d_group_iff [OF t] u_m_group_iff [OF t])
  moreover have "date_new (u_py_int zs ty) (u_py_int zs tm) (u_py_int zs td) = Inr dt"
    using rc dt u_year_text_range [OF t x(3)] by (simp add: date_new_Inr_iff)
  ultimately show ?L unfolding u_strptime_dmY_iff [OF t] by blast
qed

lemma u_strptime_error: "u_strptime_dmY zs s = Inl e \<Longrightarrow> \<exists>m. e = ValueError m"
  by (auto simp: u_strptime_dmY_def date_new_def check_date_fields_def
      split: list.splits if_splits prod.splits)

lemma u_Birthday_init_Inr_iff:
  "u_Birthday_init zs s = Inr b \<longleftrightarrow> (\<exists>dt. u_strptime_dmY zs s = Inr dt \<and> b = Birthday dt)"
  by (auto simp: u_Birthday_init_def split: sum.splits error.splits)

lemma u_Birthday_init_Inl:
  "u_Birthday_init zs s = Inl e \<Longrightarrow> e = ValueError ''Invalid date format. Use DD.MM.YYYY''"
  using u_strptime_error [of zs s]
  by (auto simp: u_Birthday_init_def split: sum.splits error.splits)

lemma latin1_table_ascii: "latin1_table zs \<Longrightarrow> ascii_table zs"
  by (auto simp: latin1_table_def ascii_table_def list_all_iff)

lemma of_char_less_256: "(of_char (c :: char) :: nat) < 256"
  by (cases c) (simp add: of_char_def)

lemma is_nd_latin1:
  assumes t: "latin1_table zs"
  shows "is_nd zs (of_char c) \<longleftrightarrow> ascii_digit c"
proof
  assume "ascii_digit c"
  then show "is_nd zs (of_char c)"
    using is_nd_ascii [OF latin1_table_ascii [OF t], of "of_char c"]
    by (simp add: ascii_digit_def cp_in_def)
next
  assume n: "is_nd zs (of_char c)"
  show "ascii_digit c"
  proof (cases zs "of_char c :: nat" rule: nd_value_cases)
    case 1
    with n show ?thesis by (simp add: is_nd_def)
  next
    case (2 z)
    from t 2(2) have "z = 48 \<or> 256 \<le> z" by (auto simp: latin1_table_def list_all_iff)
    moreover have "(of_char c :: nat) < 256" by (rule of_char_less_256)
    ultimately have "z = 48" using 2(3) by linarith
    with 2(3,4) show ?thesis by (simp add: ascii_digit_def)
  qed
qed

lemma u_digit_value_of_char:
  "ascii_table zs \<Longrightarrow> ascii_digit c \<Longrightarrow> u_digit_value zs (of_char c) = digit_value c"
  using u_digit_value_ascii [of zs "of_char c"]
  by (simp add: ascii_digit_def cp_in_def digit_value_def)

lemma is_nd_of_char: "ascii_table zs \<Longrightarrow> ascii_digit c \<Longrightarrow> is_nd zs (of_char c)"
  using is_nd_ascii [of zs "of_char c"] by (simp add: ascii_digit_def cp_in_def)

lemma code_points_Nil [simp]: "code_points [] = []"
  by (simp add: code_points_def)

lemma code_points_Cons [simp]: "code_points (c # s) = of_char c # code_points s"
  by (simp add: code_points_def)

lemma code_points_append [simp]: "code_points (s @ t) = code_points s @ code_points t"
  by (simp add: code_points_def)

lemma code_points_dot: "code_points t = [46] \<longleftrightarrow> t = ''.''"
proof -
  have "(of_char c :: nat) = 46 \<longleftrightarrow> c = CHR ''.''" for c by (simp add: char_eq_code)
  then show ?thesis by (cases t) (auto simp: code_points_def)
qed

lemma code_points_append_D:
  "code_points s = A @ B \<Longrightarrow> \<exists>a b. s = a @ b \<and> A = code_points a \<and> B = code_points b"
  unfolding code_points_def by (auto simp: map_eq_append_conv)

lemma code_points_dot_D:
  "code_points s = 46 # B \<Longrightarrow> \<exists>b. s = CHR ''.'' # b \<and> B = code_points b"
  unfolding code_points_def by (auto simp: map_eq_Cons_conv char_eq_code)

lemma u_day_text_latin1:
  assumes t: "latin1_table zs"
  shows "u_day_text zs (code_points td) \<longleftrightarrow> day_text td"
proof (cases td rule: list_shape)
  case 1
  then show ?thesis by (simp add: u_day_text_def day_text_def)
next
  case (2 a)
  then show ?thesis by (simp add: u_day_text_def day_text_def cp_in_def ascii_digit_def)
next
  case (3 a b)
  then show ?thesis
    by (auto simp: u_day_text_def day_text_def cp_in_def is_nd_latin1 [OF t]
        ascii_digit_def char_eq_code)
next
  case (4 a b c r)
  then show ?thesis by (simp add: u_day_text_def day_text_def)
qed

lemma u_month_text_code_points: "u_month_text (code_points tm) \<longleftrightarrow> month_text tm"
proof (cases tm rule: list_shape)
  case 1
  then show ?thesis by (simp add: u_month_text_def month_text_def)
next
  case (2 a)
  then show ?thesis by (simp add: u_month_text_def month_text_def cp_in_def ascii_digit_def)
next
  case (3 a b)
  then show ?thesis
    by (simp add: u_month_text_def month_text_def cp_in_def ascii_digit_def)
next
  case (4 a b c r)
  then show ?thesis by (simp add: u_month_text_def month_text_def)
qed

lemma u_year_text_latin1:
  "latin1_table zs \<Longrightarrow> u_year_text zs (code_points ty) \<longleftrightarrow> year_text ty"
  by (simp add: u_year_text_def year_text_def code_points_def list_all_iff is_nd_latin1)

lemma blank_code: "(of_char c :: nat) = 32 \<longleftrightarrow> c = CHR '' ''"
  by (simp add: char_eq_code)

lemma u_py_int_day_text:
  assumes t: "ascii_table zs" and d: "day_text td"
  shows "u_py_int zs (code_points td) = py_int td"
proof (cases td rule: list_shape)
  case 1
  with d show ?thesis by (simp add: day_text_def)
next
  case (2 a)
  with d have a: "ascii_digit a" by (simp add: day_text_def)
  then have "a \<noteq> CHR '' ''" by (rule ascii_digit_not_blank)
  then show ?thesis
    using 2 u_digit_value_of_char [OF t a]
    by (simp add: py_int_1 u_py_int_1 blank_code)
next
  case (3 a b)
  with d have b: "ascii_digit b" and a: "ascii_digit a \<or> a = CHR '' ''"
    by (simp_all add: day_text_def)
  have nb: "b \<noteq> CHR '' ''" using b by (rule ascii_digit_not_blank)
  show ?thesis
  proof (cases "a = CHR '' ''")
    case True
    then show ?thesis
      using 3 nb u_digit_value_of_char [OF t b]
      by (simp add: py_int_blank u_py_int_blank blank_code)
  next
    case False
    with a have da: "ascii_digit a" by simp
    show ?thesis
      using 3 False u_digit_value_of_char [OF t b] u_digit_value_of_char [OF t da]
      by (simp add: py_int_2 u_py_int_2 blank_code)
  qed
next
  case (4 a b c r)
  with d show ?thesis by (simp add: day_text_def)
qed

lemma month_text_day_text: "month_text t \<Longrightarrow> day_text t"
  by (cases t rule: list_shape) (simp_all add: month_text_def day_text_def)

lemma u_py_int_year_text:
  assumes t: "ascii_table zs" and y: "year_text ty"
  shows "u_py_int zs (code_points ty) = py_int ty"
proof -
  from y obtain a b c d where ty: "ty = [a, b, c, d]"
    and dg: "ascii_digit a" "ascii_digit b" "ascii_digit c" "ascii_digit d"
    unfolding year_text_shape by blast
  have "a \<noteq> CHR '' ''" using dg(1) by (rule ascii_digit_not_blank)
  then show ?thesis
    using ty dg [THEN u_digit_value_of_char [OF t]]
    by (simp add: py_int_4 u_py_int_4 blank_code)
qed

lemma day_text_code_points:
  assumes t: "ascii_table zs" and d: "day_text td"
  shows "u_day_text zs (code_points td)"
proof (cases td rule: list_shape)
  case 1
  with d show ?thesis by (simp add: day_text_def)
next
  case (2 a)
  with d show ?thesis by (simp add: u_day_text_def day_text_def cp_in_def ascii_digit_def)
next
  case (3 a b)
  with d show ?thesis
    by (auto simp: u_day_text_def day_text_def cp_in_def ascii_digit_def char_eq_code)
next
  case (4 a b c r)
  with d show ?thesis by (simp add: day_text_def)
qed

lemma year_text_code_points:
  "ascii_table zs \<Longrightarrow> year_text ty \<Longrightarrow> u_year_text zs (code_points ty)"
  by (simp add: u_year_text_def year_text_def code_points_def list_all_iff is_nd_of_char)

lemma u_strptime_of_string:
  assumes t: "ascii_table zs" and r: "strptime_dmY s = Inr dt"
  shows "u_strptime_dmY zs (code_points s) = Inr dt"
proof -
  from r obtain td tm ty where s: "s = td @ ''.'' @ tm @ ''.'' @ ty"
    and x: "day_text td" "month_text tm" "year_text ty"
    and rc: "real_calendar_date (py_int ty) (py_int tm) (py_int td)"
    and dt: "dt = \<lparr>year = py_int ty, month = py_int tm, day = py_int td\<rparr>"
    unfolding strptime_accepts_iff by blast
  have v: "u_py_int zs (code_points td) = py_int td" "u_py_int zs (code_points tm) = py_int tm"
    "u_py_int zs (code_points ty) = py_int ty"
    using x t by (simp_all add: u_py_int_day_text month_text_day_text u_py_int_year_text)
  have "code_points s = code_points td @ [46] @ code_points tm @ [46] @ code_points ty"
    using s by simp
  moreover have "u_day_text zs (code_points td)" "u_month_text (code_points tm)"
    "u_year_text zs (code_points ty)"
    using x t by (simp_all add: day_text_code_points u_month_text_code_points year_text_code_points)
  ultimately show ?thesis
    unfolding u_strptime_accepts_iff [OF t]
    using rc dt v by metis
qed

lemma u_strptime_latin1_Inr:
  assumes t: "latin1_table zs"
  shows "u_strptime_dmY zs (code_points s) = Inr dt \<longleftrightarrow> strptime_dmY s = Inr dt"
  (is "?L \<longleftrightarrow> ?R")
proof
  assume ?R
  then show ?L by (rule u_strptime_of_string [OF latin1_table_ascii [OF t]])
next
  assume ?L
  then obtain ud um uy where s: "code_points s = ud @ [46] @ um @ [46] @ uy"
    and x: "u_day_text zs ud" "u_month_text um" "u_year_text zs uy"
    and rc: "real_calendar_date (u_py_int zs uy) (u_py_int zs um) (u_py_int zs ud)"
    and dt: "dt = \<lparr>year = u_py_int zs uy, month = u_py_int zs um, day = u_py_int zs ud\<rparr>"
    unfolding u_strptime_accepts_iff [OF latin1_table_ascii [OF t]] by blast
  from code_points_append_D [of s ud "46 # um @ 46 # uy"] s
  obtain td r1 where 1: "s = td @ r1" "ud = code_points td" "code_points r1 = 46 # um @ 46 # uy"
    by auto
  from code_points_dot_D [OF 1(3)]
  obtain r2 where 2: "r1 = CHR ''.'' # r2" "code_points r2 = um @ 46 # uy" by auto
  from code_points_append_D [OF 2(2)]
  obtain tm r3 where 3: "r2 = tm @ r3" "um = code_points tm" "code_points r3 = 46 # uy"
    by auto
  from code_points_dot_D [OF 3(3)]
  obtain ty where 4: "r3 = CHR ''.'' # ty" "uy = code_points ty" by auto
  have y: "day_text td" "month_text tm" "year_text ty"
    using x 1(2) 3(2) 4(2) t
    by (simp_all add: u_day_text_latin1 u_month_text_code_points u_year_text_latin1)
  have v: "u_py_int zs ud = py_int td" "u_py_int zs um = py_int tm"
    "u_py_int zs uy = py_int ty"
    using y latin1_table_ascii [OF t] 1(2) 3(2) 4(2)
    by (simp_all add: u_py_int_day_text month_text_day_text u_py_int_year_text)
  have "s = td @ ''.'' @ tm @ ''.'' @ ty" using 1(1) 2(1) 3(1) 4(1) by simp
  then show ?R
    unfolding strptime_accepts_iff using y rc dt v by metis
qed

lemma u_Birthday_init_latin1:
  assumes t: "latin1_table zs"
  shows "u_Birthday_init zs (code_points s) = Birthday_init s"
proof (cases "Birthday_init s")
  case (Inr b)
  then have "u_Birthday_init zs (code_points s) = Inr b"
    unfolding u_Birthday_init_Inr_iff Birthday_init_Inr_iff u_strptime_latin1_Inr [OF t] .
  with Inr show ?thesis by simp
next
  case (Inl e)
  have "u_Birthday_init zs (code_points s) \<noteq> Inr b" for b
    using Inl
    by (auto simp: u_Birthday_init_Inr_iff u_strptime_latin1_Inr [OF t] Birthday_init_def)
  then obtain e' where e': "u_Birthday_init zs (code_points s) = Inl e'"
    by (cases "u_Birthday_init zs (code_points s)") auto
  from Birthday_init_Inl [OF Inl] u_Birthday_init_Inl [OF e'] Inl e' show ?thesis by simp
qed

lemma latin1_table_nd_zeros: "latin1_table nd_zeros"
  by (simp add: latin1_table_def nd_zeros_def)


section \<open>Validation of phones and birthdays\<close>

text \<open>
  C3 as stated fails: \<^verbatim>\<open>str.isdigit\<close> also holds for digits that are not among 0 to 9, such
  as the superscript two (U+00B2), so a text of nine decimal digits and a superscript
  two makes a phone.
\<close>

theorem phone_superscript_counterexample:
  "Phone_init (''123456789'' @ [CHR 0xB2]) = Inr (Phone (''123456789'' @ [CHR 0xB2]))
   \<and> \<not> ten_decimal_digits (''123456789'' @ [CHR 0xB2])"
  by (simp add: Phone_init_def isdigit_def unicode_digit_def ascii_digit_def
      ten_decimal_digits_def)

lemma ascii_digit_unicode_digit: "ascii_digit c \<Longrightarrow> unicode_digit c"
  by (simp add: unicode_digit_def)

lemma ten_decimal_digits_isdigit:
  "ten_decimal_digits v \<Longrightarrow> length v = 10 \<and> list_all unicode_digit v"
  by (auto simp: ten_decimal_digits_def list_all_iff ascii_digit_unicode_digit)

lemma Phone_init_Inr_iff:
  "Phone_init v = Inr p \<longleftrightarrow> length v = 10 \<and> list_all unicode_digit v \<and> p = Phone v"
  by (auto simp: Phone_init_def isdigit_def)

lemma Phone_init_Inl:
  "\<not> (length v = 10 \<and> list_all unicode_digit v) \<Longrightarrow>
     Phone_init v = Inl (ValueError ''Phone number must contain 10 digits.'')"
  by (auto simp: Phone_init_def isdigit_def)

text \<open>
  C3, amended: \<^verbatim>\<open>Phone(value)\<close> succeeds iff \<open>value\<close> has exactly ten characters and each
  is a digit in the sense of \<^verbatim>\<open>str.isdigit\<close>; every text of ten decimal digits 0 to 9 is
  accepted. Every other text fails with the \<^verbatim>\<open>ValueError\<close> whose message is
  \<^verbatim>\<open>Phone number must contain 10 digits.\<close>, and then the \<^verbatim>\<open>add\<close> command prints the message
  and leaves the book as it was; a phone is stored only when the construction
  succeeded.
\<close>

theorem phone_init_accepts:
  "(Phone_init v = Inr p \<longleftrightarrow> length v = 10 \<and> list_all unicode_digit v \<and> p = Phone v)
   \<and> (ten_decimal_digits v \<longrightarrow> Phone_init v = Inr (Phone v))
   \<and> (\<not> (length v = 10 \<and> list_all unicode_digit v) \<longrightarrow>
        Phone_init v = Inl (ValueError ''Phone number must contain 10 digits.'')
        \<and> main_add n v book = (book, ''Phone number must contain 10 digits.''))
   \<and> (length v = 10 \<and> list_all unicode_digit v \<longrightarrow>
        fst (main_add n v book)
          = add_record \<lparr>name = Name n, phones = [Phone v], birthday = None\<rparr> book)"
proof -
  have a: "Phone_init v = Inr (Phone v)" if "ten_decimal_digits v"
    using ten_decimal_digits_isdigit [OF that] by (simp add: Phone_init_Inr_iff)
  have b: "main_add n v book = (book, ''Phone number must contain 10 digits.'')"
    if "\<not> (length v = 10 \<and> list_all unicode_digit v)"
    using Phone_init_Inl [OF that] by (simp add: main_add_def error_text_def)
  have c: "fst (main_add n v book)
          = add_record \<lparr>name = Name n, phones = [Phone v], birthday = None\<rparr> book"
    if "length v = 10 \<and> list_all unicode_digit v"
  proof -
    have "Phone_init v = Inr (Phone v)" using that by (simp add: Phone_init_Inr_iff)
    then show ?thesis by (simp add: main_add_def add_phone_def Record_init_def)
  qed
  show ?thesis using a b c Phone_init_Inr_iff [of v p] Phone_init_Inl [of v] by blast
qed

theorem phone_init_accepts_witness:
  "Phone_init ''0501234567'' = Inr (Phone ''0501234567'')
   \<and> ten_decimal_digits ''0501234567''
   \<and> \<not> (length ''12345'' = 10 \<and> list_all unicode_digit ''12345'')
   \<and> main_add ''bob'' ''12345'' [] = ([], ''Phone number must contain 10 digits.'')"
proof -
  have t: "ten_decimal_digits ''0501234567''"
    by (simp add: ten_decimal_digits_def ascii_digit_def)
  have n: "\<not> (length ''12345'' = 10 \<and> list_all unicode_digit ''12345'')" by simp
  from phone_init_accepts [of "''0501234567''" "Phone ''0501234567''" "''bob''" "[]"] t
  have 1: "Phone_init ''0501234567'' = Inr (Phone ''0501234567'')" by blast
  from phone_init_accepts [of "''12345''" "Phone ''12345''" "''bob''" "[]"] n
  have 2: "main_add ''bob'' ''12345'' [] = ([], ''Phone number must contain 10 digits.'')"
    by blast
  show ?thesis using 1 2 t n by blast
qed

text \<open>
  C4 as stated fails: the parser also takes a day and a month of one digit, so
  \<^verbatim>\<open>1.1.2024\<close>, which is not of the form DD.MM.YYYY, makes a birthday.
\<close>

theorem birthday_short_form_counterexample:
  "Birthday_init ''1.1.2024'' = Inr (Birthday \<lparr>year = 2024, month = 1, day = 1\<rparr>)
   \<and> u_Birthday_init nd_zeros (code_points ''1.1.2024'')
       = Inr (Birthday \<lparr>year = 2024, month = 1, day = 1\<rparr>)
   \<and> \<not> matches_DD_MM_YYYY ''1.1.2024''"
proof -
  have "strptime_dmY ''1.1.2024'' = Inr \<lparr>year = 2024, month = 1, day = 1\<rparr>"
    by code_simp
  then have 1: "Birthday_init ''1.1.2024''
                  = Inr (Birthday \<lparr>year = 2024, month = 1, day = 1\<rparr>)"
    by (simp add: Birthday_init_def)
  then have "u_Birthday_init nd_zeros (code_points ''1.1.2024'')
               = Inr (Birthday \<lparr>year = 2024, month = 1, day = 1\<rparr>)"
    by (simp only: u_Birthday_init_latin1 [OF latin1_table_nd_zeros])
  with 1 show ?thesis by (simp add: matches_DD_MM_YYYY_def)
qed

text \<open>
  C4, amended, for a text of any code points: \<^verbatim>\<open>Birthday(value)\<close> succeeds iff \<open>value\<close>
  is a day, a dot, a month, a dot and a year, where the day is written with one ASCII
  digit, a blank and one ASCII digit, two ASCII digits, or a 1 or a 2 followed by a
  decimal digit of any script, the month with one or two ASCII digits, the year with
  four decimal digits of any script, and the three numbers are a real calendar date;
  the birthday holds that date. Every other text fails with the \<^verbatim>\<open>ValueError\<close> whose
  message is \<^verbatim>\<open>Invalid date format. Use DD.MM.YYYY\<close>. In particular every text of the
  form DD.MM.YYYY in ASCII digits that is a real calendar date is accepted. This holds
  for every table of decimal digits in which the ASCII digits are a run and no other
  run reaches into them.
\<close>

theorem birthday_init_accepts_any_text:
  assumes t: "ascii_table zs"
  shows "(u_Birthday_init zs v = Inr b \<longleftrightarrow>
      (\<exists>td tm ty. v = td @ [46] @ tm @ [46] @ ty
         \<and> u_day_text zs td \<and> u_month_text tm \<and> u_year_text zs ty
         \<and> real_calendar_date (u_py_int zs ty) (u_py_int zs tm) (u_py_int zs td)
         \<and> b = Birthday \<lparr>year = u_py_int zs ty, month = u_py_int zs tm,
                          day = u_py_int zs td\<rparr>))
   \<and> ((\<forall>b'. u_Birthday_init zs v \<noteq> Inr b') \<longrightarrow>
        u_Birthday_init zs v = Inl (ValueError ''Invalid date format. Use DD.MM.YYYY''))
   \<and> (v = code_points s \<and> matches_DD_MM_YYYY s
        \<and> real_calendar_date (year_of_text s) (month_of_text s) (day_of_text s) \<longrightarrow>
        u_Birthday_init zs v
          = Inr (Birthday \<lparr>year = year_of_text s, month = month_of_text s,
                           day = day_of_text s\<rparr>))"
proof -
  have a: "u_Birthday_init zs v = Inr b \<longleftrightarrow>
      (\<exists>td tm ty. v = td @ [46] @ tm @ [46] @ ty
         \<and> u_day_text zs td \<and> u_month_text tm \<and> u_year_text zs ty
         \<and> real_calendar_date (u_py_int zs ty) (u_py_int zs tm) (u_py_int zs td)
         \<and> b = Birthday \<lparr>year = u_py_int zs ty, month = u_py_int zs tm,
                          day = u_py_int zs td\<rparr>)"
    unfolding u_Birthday_init_Inr_iff u_strptime_accepts_iff [OF t] by blast
  have b: "u_Birthday_init zs v = Inl (ValueError ''Invalid date format. Use DD.MM.YYYY'')"
    if "\<forall>b'. u_Birthday_init zs v \<noteq> Inr b'"
  proof (cases "u_Birthday_init zs v")
    case (Inl e)
    with u_Birthday_init_Inl [OF Inl] show ?thesis by simp
  next
    case (Inr b')
    with that show ?thesis by simp
  qed
  have c: "u_Birthday_init zs v
          = Inr (Birthday \<lparr>year = year_of_text s, month = month_of_text s,
                           day = day_of_text s\<rparr>)"
    if "v = code_points s \<and> matches_DD_MM_YYYY s
        \<and> real_calendar_date (year_of_text s) (month_of_text s) (day_of_text s)"
    using u_strptime_of_string [OF t parse_accepts [of s]] that
    by (simp add: u_Birthday_init_Inr_iff)
  show ?thesis using a b c by blast
qed

theorem birthday_init_accepts_any_text_witness:
  "ascii_table nd_zeros
   \<and> u_Birthday_init nd_zeros [49, 1632, 46, 48, 49, 46, 1634, 1632, 1634, 1636]
       = Inr (Birthday \<lparr>year = 2024, month = 1, day = 10\<rparr>)
   \<and> u_Birthday_init nd_zeros [1633, 1632, 46, 1632, 1633, 46, 1634, 1632, 1634, 1636]
       = Inl (ValueError ''Invalid date format. Use DD.MM.YYYY'')
   \<and> u_Birthday_init nd_zeros (code_points ''29.02.2024'')
       = Inr (Birthday \<lparr>year = 2024, month = 2, day = 29\<rparr>)"
proof -
  have t: "ascii_table nd_zeros" by (rule latin1_table_ascii [OF latin1_table_nd_zeros])
  note acc = birthday_init_accepts_any_text [OF t]
  have s1: "[49, 1632, 46, 48, 49, 46, 1634, 1632, 1634, 1636]
              = [49, 1632] @ [46] @ [48, 49] @ [46] @ [1634, 1632, 1634, 1636::nat]" by simp
  have nd: "nd_value nd_zeros 1632 = Some 0" "nd_value nd_zeros 1634 = Some 2"
    "nd_value nd_zeros 1636 = Some 4" "nd_value nd_zeros 48 = Some 0"
    "nd_value nd_zeros 49 = Some 1" "nd_value nd_zeros 1633 = Some 1"
    by (simp_all add: nd_value_def nd_zeros_def)
  have t1: "u_day_text nd_zeros [49, 1632]" "u_month_text [48, 49]"
    "u_year_text nd_zeros [1634, 1632, 1634, 1636]"
    "u_py_int nd_zeros [49, 1632] = 10" "u_py_int nd_zeros [48, 49] = 1"
    "u_py_int nd_zeros [1634, 1632, 1634, 1636] = 2024"
    by (simp_all add: u_day_text_def u_month_text_def u_year_text_def cp_in_def is_nd_def
        u_py_int_def u_digit_value_def nd)
  have r1: "real_calendar_date 2024 1 10" by (simp add: real_calendar_date_def)
  from acc [of "[49, 1632, 46, 48, 49, 46, 1634, 1632, 1634, 1636]"
      "Birthday \<lparr>year = 2024, month = 1, day = 10\<rparr>"] s1 t1 r1
  have 1: "u_Birthday_init nd_zeros [49, 1632, 46, 48, 49, 46, 1634, 1632, 1634, 1636]
             = Inr (Birthday \<lparr>year = 2024, month = 1, day = 10\<rparr>)"
    by metis
  have n2: "\<forall>b'. u_Birthday_init nd_zeros
                    [1633, 1632, 46, 1632, 1633, 46, 1634, 1632, 1634, 1636] \<noteq> Inr b'"
  proof -
    have "u_match_d nd_zeros [1633, 1632, 46, 1632, 1633, 46, 1634, 1632, 1634, 1636] = []"
      by (simp add: u_match_d_def alt1_def alt2_def cp_in_def)
    then have "u_regex_matches nd_zeros
                 [1633, 1632, 46, 1632, 1633, 46, 1634, 1632, 1634, 1636] = []"
      by (simp add: u_regex_matches_def)
    then show ?thesis by (simp add: u_Birthday_init_def u_strptime_dmY_def)
  qed
  from acc [of "[1633, 1632, 46, 1632, 1633, 46, 1634, 1632, 1634, 1636]"
      "Birthday \<lparr>year = 2024, month = 1, day = 10\<rparr>"] n2
  have 2: "u_Birthday_init nd_zeros [1633, 1632, 46, 1632, 1633, 46, 1634, 1632, 1634, 1636]
             = Inl (ValueError ''Invalid date format. Use DD.MM.YYYY'')"
    by blast
  have m3: "matches_DD_MM_YYYY ''29.02.2024''"
    "year_of_text ''29.02.2024'' = 2024" "month_of_text ''29.02.2024'' = 2"
    "day_of_text ''29.02.2024'' = 29"
    by (simp_all add: matches_DD_MM_YYYY_def ascii_digit_def year_of_text_def
        month_of_text_def day_of_text_def py_int_def digit_value_def)
  have r3: "real_calendar_date 2024 2 29" by (simp add: real_calendar_date_def)
  from acc [of "code_points ''29.02.2024''" _ "''29.02.2024''"] m3 r3
  have 3: "u_Birthday_init nd_zeros (code_points ''29.02.2024'')
             = Inr (Birthday \<lparr>year = 2024, month = 2, day = 29\<rparr>)"
    by simp
  show ?thesis using t 1 2 3 by simp
qed

text \<open>
  C8 as stated fails where the C library does not pad the year (glibc): the text
  \<^verbatim>\<open>05.01.0987\<close> is of the form DD.MM.YYYY and a real calendar date, it parses to
  5 January 987, and that date is formatted as \<^verbatim>\<open>05.01.987\<close>.
\<close>

theorem year_below_1000_counterexample:
  "matches_DD_MM_YYYY ''05.01.0987''
   \<and> real_calendar_date (year_of_text ''05.01.0987'') (month_of_text ''05.01.0987'')
        (day_of_text ''05.01.0987'')
   \<and> Birthday_init ''05.01.0987'' = Inr (Birthday \<lparr>year = 987, month = 1, day = 5\<rparr>)
   \<and> strftime_dmY False \<lparr>year = 987, month = 1, day = 5\<rparr> = ''05.01.987''"
proof -
  have m: "matches_DD_MM_YYYY ''05.01.0987''"
    by (simp add: matches_DD_MM_YYYY_def ascii_digit_def)
  have f: "year_of_text ''05.01.0987'' = 987" "month_of_text ''05.01.0987'' = 1"
    "day_of_text ''05.01.0987'' = 5"
    by (simp_all add: year_of_text_def month_of_text_def day_of_text_def py_int_def
        digit_value_def)
  have r: "real_calendar_date (year_of_text ''05.01.0987'') (month_of_text ''05.01.0987'')
        (day_of_text ''05.01.0987'')"
    unfolding f by (simp add: real_calendar_date_def)
  have b: "Birthday_init ''05.01.0987'' = Inr (Birthday \<lparr>year = 987, month = 1, day = 5\<rparr>)"
    using parse_accepts [OF m r] unfolding f by (simp add: Birthday_init_Inr_iff)
  have s: "strftime_dmY False \<lparr>year = 987, month = 1, day = 5\<rparr> = ''05.01.987''"
    by code_simp
  show ?thesis using m r b s by blast
qed

text \<open>
  C8, amended: for every text of the form DD.MM.YYYY that is a real calendar date, the
  construction of the birthday succeeds; formatting the parsed date with
  \<^verbatim>\<open>%d.%m.%Y\<close>, as \<^verbatim>\<open>Record.__str__\<close> does, gives the text back when the year is 1000 or
  later, and for every year where the C library pads the year to four places.
\<close>

theorem birthday_round_trip:
  assumes "matches_DD_MM_YYYY v"
    and "real_calendar_date (year_of_text v) (month_of_text v) (day_of_text v)"
    and "padded \<or> 1000 \<le> year_of_text v"
  shows "\<exists>b. Birthday_init v = Inr b \<and> strftime_dmY padded (birthday_value b) = v
           \<and> Record_str padded \<lparr>name = n, phones = ps, birthday = Some b\<rparr>
               = ''Contact name: '' @ name_value n @ '', phones: ''
                 @ join ''; '' (map str_Phone ps) @ '', birthday: '' @ v"
proof -
  let ?b = "Birthday \<lparr>year = year_of_text v, month = month_of_text v, day = day_of_text v\<rparr>"
  have "Birthday_init v = Inr ?b"
    using parse_accepts [OF assms(1,2)] by (simp add: Birthday_init_Inr_iff)
  moreover have f: "strftime_dmY padded (birthday_value ?b) = v"
    using parse_then_format [OF assms(1,3)] by simp
  moreover have "Record_str padded \<lparr>name = n, phones = ps, birthday = Some ?b\<rparr>
               = ''Contact name: '' @ name_value n @ '', phones: ''
                 @ join ''; '' (map str_Phone ps) @ '', birthday: '' @ v"
    using f by (simp add: Record_str_def Let_def)
  ultimately show ?thesis by blast
qed

theorem birthday_round_trip_witness:
  "matches_DD_MM_YYYY ''29.02.2024''
   \<and> real_calendar_date (year_of_text ''29.02.2024'') (month_of_text ''29.02.2024'')
        (day_of_text ''29.02.2024'')
   \<and> 1000 \<le> year_of_text ''29.02.2024''
   \<and> (\<exists>b. Birthday_init ''29.02.2024'' = Inr b
          \<and> strftime_dmY False (birthday_value b) = ''29.02.2024'')"
proof -
  have m: "matches_DD_MM_YYYY ''29.02.2024''"
    by (simp add: matches_DD_MM_YYYY_def ascii_digit_def)
  have f: "year_of_text ''29.02.2024'' = 2024" "month_of_text ''29.02.2024'' = 2"
    "day_of_text ''29.02.2024'' = 29"
    by (simp_all add: year_of_text_def month_of_text_def day_of_text_def py_int_def
        digit_value_def)
  have r: "real_calendar_date (year_of_text ''29.02.2024'') (month_of_text ''29.02.2024'')
        (day_of_text ''29.02.2024'')"
    unfolding f by (simp add: real_calendar_date_def)
  have y: "False \<or> 1000 \<le> year_of_text ''29.02.2024''" unfolding f by simp
  from birthday_round_trip [OF m r y, of "Name ''a''" "[]"] m r y show ?thesis by blast
qed


section \<open>Properties of the upcoming birthdays\<close>

lemma replace_year_Inr:
  "replace_year d y = Inr d' \<Longrightarrow> d' = in_year y d \<and> valid_date d'"
  by (auto simp: replace_year_def in_year_def date_new_def check_date_fields_def valid_date_def
      split: if_splits)

lemma replace_year_valid:
  "valid_date (in_year y d) \<Longrightarrow> replace_year d y = Inr (in_year y d)"
  by (simp add: replace_year_def in_year_def date_new_def check_date_fields_def valid_date_def)

lemma replace_year_invalid:
  "\<not> valid_date (in_year y d) \<Longrightarrow> \<exists>e. replace_year d y = Inl e"
  by (cases "replace_year d y") (auto dest: replace_year_Inr)

lemma in_year_in_year: "in_year y (in_year y' d) = in_year y d"
  by (simp add: in_year_def)

lemma birthday_this_year_Inr:
  "birthday_this_year today b = Inr bty \<Longrightarrow>
     bty = this_year_date today b \<and> valid_date bty \<and> rebasable today b"
  by (auto simp: birthday_this_year_def this_year_date_def rebasable_def in_year_in_year
      split: sum.splits if_splits dest!: replace_year_Inr)

lemma birthday_this_year_rebasable:
  "rebasable today b \<Longrightarrow> birthday_this_year today b = Inr (this_year_date today b)"
  by (auto simp: birthday_this_year_def this_year_date_def rebasable_def in_year_in_year
      replace_year_valid)

lemma birthday_this_year_not_rebasable:
  "\<not> rebasable today b \<Longrightarrow> \<exists>e. birthday_this_year today b = Inl e"
  by (cases "birthday_this_year today b") (auto dest: birthday_this_year_Inr)

lemma congradulation_ok:
  assumes "valid_date bty"
  shows "\<exists>c. congradulation padded bty = Inr c"
proof (cases "weekday bty = 5 \<or> weekday bty = 6")
  case True
  from weekend_no_overflow [OF assms True] show ?thesis
    using True by (auto simp: congradulation_def)
next
  case False
  then show ?thesis by (simp add: congradulation_def)
qed

lemma upcoming_step_Inr:
  assumes "upcoming_step padded today r acc = Inr acc'"
  shows "(case birthday r of None \<Rightarrow> True | Some b \<Rightarrow> rebasable today (birthday_value b))
       \<and> (if in_window today r
          then \<exists>b c. birthday r = Some b
                 \<and> congradulation padded (this_year_date today (birthday_value b)) = Inr c
                 \<and> acc' = acc @ [\<lparr>contact_name = name_value (name r), congradulation_date = c\<rparr>]
          else acc' = acc)"
proof (cases "birthday r")
  case None
  with assms show ?thesis by (simp add: upcoming_step_def in_window_def)
next
  case (Some b)
  then obtain bty where bty: "birthday_this_year today (birthday_value b) = Inr bty"
    using assms by (auto simp: upcoming_step_def split: sum.splits)
  note f = birthday_this_year_Inr [OF bty]
  show ?thesis
    using assms Some bty f
    by (auto simp: upcoming_step_def in_window_def days_until_def date_sub_days_def Let_def
        split: sum.splits if_splits)
qed

lemma upcoming_step_total:
  assumes "case birthday r of None \<Rightarrow> True | Some b \<Rightarrow> rebasable today (birthday_value b)"
  shows "\<exists>acc'. upcoming_step padded today r acc = Inr acc'"
proof (cases "birthday r")
  case None
  then show ?thesis by (simp add: upcoming_step_def)
next
  case (Some b)
  then have rb: "rebasable today (birthday_value b)" using assms by simp
  have bty: "birthday_this_year today (birthday_value b)
               = Inr (this_year_date today (birthday_value b))"
    by (rule birthday_this_year_rebasable [OF rb])
  have "valid_date (this_year_date today (birthday_value b))"
    using birthday_this_year_Inr [OF bty] by simp
  from congradulation_ok [OF this] obtain c
    where "congradulation padded (this_year_date today (birthday_value b)) = Inr c" by blast
  then show ?thesis
    using Some bty by (simp add: upcoming_step_def Let_def)
qed

lemma upcoming_step_Inl:
  assumes "birthday r = Some b" "\<not> rebasable today (birthday_value b)"
  shows "\<exists>e. upcoming_step padded today r acc = Inl e"
  using assms birthday_this_year_not_rebasable [OF assms(2)]
  by (auto simp: upcoming_step_def)


lemma upcoming_loop_Inr:
  assumes "upcoming_loop padded today rs acc = Inr out"
  shows "(\<forall>r\<in>set rs. case birthday r of None \<Rightarrow> True
                        | Some b \<Rightarrow> rebasable today (birthday_value b))
       \<and> (\<exists>new. out = acc @ new
            \<and> list_all2
                 (\<lambda>r e. \<exists>b c. birthday r = Some b
                    \<and> congradulation padded (this_year_date today (birthday_value b)) = Inr c
                    \<and> e = \<lparr>contact_name = name_value (name r), congradulation_date = c\<rparr>)
                 (filter (in_window today) rs) new)"
  using assms
proof (induction rs arbitrary: acc)
  case Nil
  then show ?case by simp
next
  case (Cons r rs)
  from Cons.prems obtain acc' where
    st: "upcoming_step padded today r acc = Inr acc'" and lp: "upcoming_loop padded today rs acc' = Inr out"
    by (auto split: sum.splits)
  note s = upcoming_step_Inr [OF st]
  from Cons.IH [OF lp] obtain new where
    all: "\<forall>r\<in>set rs. case birthday r of None \<Rightarrow> True
                        | Some b \<Rightarrow> rebasable today (birthday_value b)"
    and new: "out = acc' @ new"
      "list_all2
                 (\<lambda>r e. \<exists>b c. birthday r = Some b
                    \<and> congradulation padded (this_year_date today (birthday_value b)) = Inr c
                    \<and> e = \<lparr>contact_name = name_value (name r), congradulation_date = c\<rparr>)
                 (filter (in_window today) rs) new"
    by blast
  show ?case
  proof (cases "in_window today r")
    case True
    with s obtain b c where bc: "birthday r = Some b"
      "congradulation padded (this_year_date today (birthday_value b)) = Inr c"
      "acc' = acc @ [\<lparr>contact_name = name_value (name r), congradulation_date = c\<rparr>]"
      by auto
    have "out = acc @ (\<lparr>contact_name = name_value (name r), congradulation_date = c\<rparr> # new)"
      using new(1) bc(3) by simp
    then show ?thesis using True s all new(2) bc(1,2) by auto
  next
    case False
    with s have "acc' = acc" by simp
    then show ?thesis using False s all new by auto
  qed
qed

lemma upcoming_loop_total:
  assumes "\<forall>r\<in>set rs. case birthday r of None \<Rightarrow> True
                        | Some b \<Rightarrow> rebasable today (birthday_value b)"
  shows "\<exists>out. upcoming_loop padded today rs acc = Inr out"
  using assms
proof (induction rs arbitrary: acc)
  case Nil
  then show ?case by simp
next
  case (Cons r rs)
  then obtain acc' where "upcoming_step padded today r acc = Inr acc'"
    using upcoming_step_total [where r = r and today = today and acc = acc and padded = padded]
    by auto
  then show ?case using Cons by simp
qed

lemma birthdays_of_all:
  "list_all P (birthdays_of book) \<longleftrightarrow>
     (\<forall>r\<in>set (dict_values book). case birthday r of None \<Rightarrow> True
                                   | Some b \<Rightarrow> P (birthday_value b))"
  by (auto simp: birthdays_of_def list_all_iff split: option.splits)

lemma list_all2_names:
  "list_all2 (\<lambda>r e. \<exists>b c. Q r b c
       \<and> e = \<lparr>contact_name = name_value (name r), congradulation_date = c\<rparr>) rs es
   \<Longrightarrow> map contact_name es = record_names rs"
  by (induction rule: list_all2_induct) (auto simp: record_names_def)


text \<open>
  What the call does when it returns. \<^verbatim>\<open>get_upcoming_birthdays\<close> returns a list exactly
  when every birthday in the book can be re-based, and the list it returns has one
  entry for each record that is in the window, in the order of the book, and none for
  any other record: a record is reported iff it has a birthday and
  \<open>0 \<le> days_until \<le> 7\<close>. In particular a birthday that falls on today
  (\<open>days_until = 0\<close>) is reported and a record without a birthday is not.
\<close>

theorem upcoming_in_window:
  "((\<exists>out. get_upcoming_birthdays padded today book = Inr out)
      \<longleftrightarrow> list_all (rebasable today) (birthdays_of book))
   \<and> (\<forall>out. get_upcoming_birthdays padded today book = Inr out \<longrightarrow>
         map contact_name out = record_names (filter (in_window today) (dict_values book)))"
proof -
  have a: "list_all (rebasable today) (birthdays_of book)"
    if "get_upcoming_birthdays padded today book = Inr out" for out
    using upcoming_loop_Inr [of padded today "dict_values book" "[]" out] that
    by (simp add: get_upcoming_birthdays_def birthdays_of_all)
  have b: "\<exists>out. get_upcoming_birthdays padded today book = Inr out"
    if "list_all (rebasable today) (birthdays_of book)"
    using upcoming_loop_total
        [where rs = "dict_values book" and today = today and acc = "[]" and padded = padded] that
    by (simp add: get_upcoming_birthdays_def birthdays_of_all)
  have c: "map contact_name out = record_names (filter (in_window today) (dict_values book))"
    if "get_upcoming_birthdays padded today book = Inr out" for out
  proof -
    from upcoming_loop_Inr [of padded today "dict_values book" "[]" out] that
    have "list_all2
                 (\<lambda>r e. \<exists>b c. (birthday r = Some b
                    \<and> congradulation padded (this_year_date today (birthday_value b)) = Inr c)
                    \<and> e = \<lparr>contact_name = name_value (name r), congradulation_date = c\<rparr>)
                 (filter (in_window today) (dict_values book)) out"
      by (simp add: get_upcoming_birthdays_def)
    then show ?thesis by (rule list_all2_names)
  qed
  show ?thesis using a b c by blast
qed

theorem upcoming_in_window_witness:
  "get_upcoming_birthdays False \<lparr>year = 2024, month = 6, day = 10\<rparr>
     [(''a'', \<lparr>name = Name ''a'', phones = [],
               birthday = Some (Birthday \<lparr>year = 1990, month = 6, day = 10\<rparr>)\<rparr>),
      (''b'', \<lparr>name = Name ''b'', phones = [], birthday = None\<rparr>),
      (''c'', \<lparr>name = Name ''c'', phones = [],
               birthday = Some (Birthday \<lparr>year = 1990, month = 1, day = 1\<rparr>)\<rparr>),
      (''d'', \<lparr>name = Name ''d'', phones = [],
               birthday = Some (Birthday \<lparr>year = 1990, month = 6, day = 17\<rparr>)\<rparr>),
      (''e'', \<lparr>name = Name ''e'', phones = [],
               birthday = Some (Birthday \<lparr>year = 1990, month = 6, day = 18\<rparr>)\<rparr>)]
   = Inr [\<lparr>contact_name = ''a'', congradulation_date = ''10.06.2024''\<rparr>,
          \<lparr>contact_name = ''d'', congradulation_date = ''17.06.2024''\<rparr>]
   \<and> record_names (filter (in_window \<lparr>year = 2024, month = 6, day = 10\<rparr>)
       (dict_values
         [(''a'', \<lparr>name = Name ''a'', phones = [],
               birthday = Some (Birthday \<lparr>year = 1990, month = 6, day = 10\<rparr>)\<rparr>),
          (''b'', \<lparr>name = Name ''b'', phones = [], birthday = None\<rparr>),
          (''c'', \<lparr>name = Name ''c'', phones = [],
               birthday = Some (Birthday \<lparr>year = 1990, month = 1, day = 1\<rparr>)\<rparr>),
          (''d'', \<lparr>name = Name ''d'', phones = [],
               birthday = Some (Birthday \<lparr>year = 1990, month = 6, day = 17\<rparr>)\<rparr>),
          (''e'', \<lparr>name = Name ''e'', phones = [],
               birthday = Some (Birthday \<lparr>year = 1990, month = 6, day = 18\<rparr>)\<rparr>)]))
     = [''a'', ''d'']"
proof -
  let ?T = "\<lparr>year = 2024, month = 6, day = 10\<rparr>"
  let ?B = "[(''a'', \<lparr>name = Name ''a'', phones = [],
               birthday = Some (Birthday \<lparr>year = 1990, month = 6, day = 10\<rparr>)\<rparr>),
      (''b'', \<lparr>name = Name ''b'', phones = [], birthday = None\<rparr>),
      (''c'', \<lparr>name = Name ''c'', phones = [],
               birthday = Some (Birthday \<lparr>year = 1990, month = 1, day = 1\<rparr>)\<rparr>),
      (''d'', \<lparr>name = Name ''d'', phones = [],
               birthday = Some (Birthday \<lparr>year = 1990, month = 6, day = 17\<rparr>)\<rparr>),
      (''e'', \<lparr>name = Name ''e'', phones = [],
               birthday = Some (Birthday \<lparr>year = 1990, month = 6, day = 18\<rparr>)\<rparr>)]"
  have e: "get_upcoming_birthdays False ?T ?B
     = Inr [\<lparr>contact_name = ''a'', congradulation_date = ''10.06.2024''\<rparr>,
          \<lparr>contact_name = ''d'', congradulation_date = ''17.06.2024''\<rparr>]"
    by code_simp
  from upcoming_in_window [of False ?T ?B] e
  have "map contact_name [\<lparr>contact_name = ''a'', congradulation_date = ''10.06.2024''\<rparr>,
          \<lparr>contact_name = ''d'', congradulation_date = ''17.06.2024''\<rparr>]
      = record_names (filter (in_window ?T) (dict_values ?B))"
    by blast
  then show ?thesis using e by simp
qed

text \<open>
  C1 fails on a book that holds a birthday on 29 February when today's year is not a
  leap year: line 81 raises for that record and the call returns no list, so a record
  whose birthday is today (\<open>days_until = 0\<close>, in the window) is not reported. Here
  today is 10 June 2025, the birthday of \<^verbatim>\<open>a\<close> is 10 June 1990 and that of \<^verbatim>\<open>z\<close> is
  29 February 2000.
\<close>

theorem upcoming_raises_with_birthday_today:
  "get_upcoming_birthdays True \<lparr>year = 2025, month = 6, day = 10\<rparr>
     [(''a'', \<lparr>name = Name ''a'', phones = [],
               birthday = Some (Birthday \<lparr>year = 1990, month = 6, day = 10\<rparr>)\<rparr>),
      (''z'', \<lparr>name = Name ''z'', phones = [],
               birthday = Some (Birthday \<lparr>year = 2000, month = 2, day = 29\<rparr>)\<rparr>)]
     = Inl (ValueError ''day is out of range for month'')
   \<and> get_upcoming_birthdays False \<lparr>year = 2025, month = 6, day = 10\<rparr>
     [(''a'', \<lparr>name = Name ''a'', phones = [],
               birthday = Some (Birthday \<lparr>year = 1990, month = 6, day = 10\<rparr>)\<rparr>),
      (''z'', \<lparr>name = Name ''z'', phones = [],
               birthday = Some (Birthday \<lparr>year = 2000, month = 2, day = 29\<rparr>)\<rparr>)]
     = Inl (ValueError ''day is out of range for month'')
   \<and> in_window \<lparr>year = 2025, month = 6, day = 10\<rparr>
       \<lparr>name = Name ''a'', phones = [],
        birthday = Some (Birthday \<lparr>year = 1990, month = 6, day = 10\<rparr>)\<rparr>
   \<and> days_until \<lparr>year = 2025, month = 6, day = 10\<rparr> \<lparr>year = 1990, month = 6, day = 10\<rparr> = 0"
proof -
  let ?T = "\<lparr>year = 2025, month = 6, day = 10\<rparr>"
  let ?B = "[(''a'', \<lparr>name = Name ''a'', phones = [],
               birthday = Some (Birthday \<lparr>year = 1990, month = 6, day = 10\<rparr>)\<rparr>),
      (''z'', \<lparr>name = Name ''z'', phones = [],
               birthday = Some (Birthday \<lparr>year = 2000, month = 2, day = 29\<rparr>)\<rparr>)]"
  have 1: "get_upcoming_birthdays True ?T ?B = Inl (ValueError ''day is out of range for month'')"
    by code_simp
  have 2: "get_upcoming_birthdays False ?T ?B = Inl (ValueError ''day is out of range for month'')"
    by code_simp
  have 3: "days_until ?T \<lparr>year = 1990, month = 6, day = 10\<rparr> = 0"
    by code_simp
  then have 4: "in_window ?T \<lparr>name = Name ''a'', phones = [],
        birthday = Some (Birthday \<lparr>year = 1990, month = 6, day = 10\<rparr>)\<rparr>"
    by (simp add: in_window_def)
  show ?thesis using 1 2 3 4 by simp
qed

lemma leap_day_not_rebasable:
  assumes "month b = 2" "day b = 29" "\<not> is_leap (year today)"
  shows "\<not> rebasable today b"
  using assms by (simp add: rebasable_def valid_date_def in_year_def days_in_month_def table_simps)

lemma leap_day_always_raises:
  assumes "r \<in> set (dict_values book)" "birthday r = Some (Birthday b)"
    and "month b = 2" "day b = 29" "\<not> is_leap (year today)"
  shows "\<exists>e. get_upcoming_birthdays padded today book = Inl e"
proof (cases "get_upcoming_birthdays padded today book")
  case (Inl e)
  then show ?thesis by blast
next
  case (Inr out)
  from upcoming_loop_Inr [of padded today "dict_values book" "[]" out] Inr assms(1,2)
  have "rebasable today b" by (auto simp: get_upcoming_birthdays_def)
  with leap_day_not_rebasable [OF assms(3,4,5)] show ?thesis by simp
qed

text \<open>
  C5: a birthday on 29 February and a today in a year that is not a leap year. The
  claim asks for a valid re-based date; \<^verbatim>\<open>replace(year=today.year)\<close> raises instead.
\<close>

theorem leap_day_birthday_raises:
  "get_upcoming_birthdays True \<lparr>year = 2025, month = 3, day = 1\<rparr>
     [(''a'', \<lparr>name = Name ''a'', phones = [],
               birthday = Some (Birthday \<lparr>year = 2024, month = 2, day = 29\<rparr>)\<rparr>)]
   = Inl (ValueError ''day is out of range for month'')"
  by code_simp


lemma rebasable_valid: "rebasable today b \<Longrightarrow> valid_date (this_year_date today b)"
  by (simp add: rebasable_def this_year_date_def)

lemma this_year_date_year: "year today \<le> year (this_year_date today b)"
  by (simp add: this_year_date_def in_year_def)

lemma congradulation_Inr:
  assumes v: "valid_date tyd" and c: "congradulation padded tyd = Inr c"
  shows "(if weekday tyd = 5 \<or> weekday tyd = 6
          then \<exists>mon. date_add_days tyd (7 - weekday tyd) = Inr mon \<and> valid_date mon
                 \<and> toordinal mon = toordinal tyd + (7 - weekday tyd)
                 \<and> weekday mon = 0 \<and> c = strftime_dmY padded mon
          else c = strftime_dmY padded tyd)"
proof (cases "weekday tyd = 5 \<or> weekday tyd = 6")
  case True
  from weekend_no_overflow [OF v True] obtain mon where
    m: "date_add_days tyd (7 - weekday tyd) = Inr mon" "valid_date mon"
      "toordinal mon = toordinal tyd + (7 - weekday tyd)" "weekday mon = 0"
    by blast
  have "c = strftime_dmY padded mon" using c True m(1) by (auto simp: congradulation_def)
  with m True show ?thesis by auto
next
  case False
  then show ?thesis using c by (simp add: congradulation_def)
qed

lemma weekday_range: "0 \<le> weekday dt \<and> weekday dt \<le> 6"
  by (simp add: weekday_def)

lemma later_date_year:
  assumes "valid_date a" "valid_date b" "toordinal a \<le> toordinal b" "1000 \<le> year a"
  shows "1000 \<le> year b"
  using assms year_from_1000_iff [of a] year_from_1000_iff [of b] by simp

lemma upcoming_entries:
  assumes "get_upcoming_birthdays padded today book = Inr out"
  shows "list_all2
           (\<lambda>r e. \<exists>b c. birthday r = Some b
              \<and> valid_date (this_year_date today (birthday_value b))
              \<and> congradulation padded (this_year_date today (birthday_value b)) = Inr c
              \<and> e = \<lparr>contact_name = name_value (name r), congradulation_date = c\<rparr>)
           (filter (in_window today) (dict_values book)) out"
proof -
  from upcoming_loop_Inr [where rs = "dict_values book" and acc = "[]", OF
      assms [unfolded get_upcoming_birthdays_def]]
  have rb: "\<forall>r\<in>set (dict_values book). case birthday r of None \<Rightarrow> True
                        | Some b \<Rightarrow> rebasable today (birthday_value b)"
    and la: "list_all2
                 (\<lambda>r e. \<exists>b c. birthday r = Some b
                    \<and> congradulation padded (this_year_date today (birthday_value b)) = Inr c
                    \<and> e = \<lparr>contact_name = name_value (name r), congradulation_date = c\<rparr>)
                 (filter (in_window today) (dict_values book)) out"
    by simp_all
  show ?thesis
  proof (rule list.rel_mono_strong [OF la])
    fix r e
    assume r: "r \<in> set (filter (in_window today) (dict_values book))"
      and "\<exists>b c. birthday r = Some b
                    \<and> congradulation padded (this_year_date today (birthday_value b)) = Inr c
                    \<and> e = \<lparr>contact_name = name_value (name r), congradulation_date = c\<rparr>"
    then obtain b c where bc: "birthday r = Some b"
      "congradulation padded (this_year_date today (birthday_value b)) = Inr c"
      "e = \<lparr>contact_name = name_value (name r), congradulation_date = c\<rparr>"
      by blast
    have "rebasable today (birthday_value b)" using rb r bc(1) by auto
    from rebasable_valid [OF this] bc
    show "\<exists>b c. birthday r = Some b
              \<and> valid_date (this_year_date today (birthday_value b))
              \<and> congradulation padded (this_year_date today (birthday_value b)) = Inr c
              \<and> e = \<lparr>contact_name = name_value (name r), congradulation_date = c\<rparr>"
      by blast
  qed
qed

text \<open>
  C2: every entry of the result belongs to a record in the window, in the order of the
  book, and carries that record's name; when the re-based birthday falls on a Saturday
  or a Sunday (weekday 5 or 6) the date of the entry is the re-based birthday plus
  \<open>7 - weekday\<close> days, which is a Monday, and otherwise it is the re-based birthday
  itself; in both cases the entry holds that date formatted with \<^verbatim>\<open>%d.%m.%Y\<close>. The text
  has the form DD.MM.YYYY and reads back as that date when today's year is 1000 or
  later, as the date of a system clock is, and for every year where the C library
  pads the year.
\<close>

theorem congratulation_date_policy:
  assumes "get_upcoming_birthdays padded today book = Inr out"
  shows "list_all2
           (\<lambda>r e. \<exists>b tyd. birthday r = Some b
              \<and> tyd = this_year_date today (birthday_value b)
              \<and> contact_name e = name_value (name r)
              \<and> (if weekday tyd = 5 \<or> weekday tyd = 6
                  then \<exists>mon. date_add_days tyd (7 - weekday tyd) = Inr mon
                         \<and> toordinal mon = toordinal tyd + (7 - weekday tyd)
                         \<and> weekday mon = 0
                         \<and> congradulation_date e = strftime_dmY padded mon
                         \<and> (padded \<or> 1000 \<le> year today \<longrightarrow>
                              strptime_dmY (congradulation_date e) = Inr mon)
                  else congradulation_date e = strftime_dmY padded tyd
                         \<and> (padded \<or> 1000 \<le> year today \<longrightarrow>
                              strptime_dmY (congradulation_date e) = Inr tyd))
              \<and> (padded \<or> 1000 \<le> year today \<longrightarrow>
                   matches_DD_MM_YYYY (congradulation_date e)))
           (filter (in_window today) (dict_values book)) out"
proof (rule list_all2_mono [OF upcoming_entries [OF assms]])
  fix r e
  assume "\<exists>b c. birthday r = Some b
              \<and> valid_date (this_year_date today (birthday_value b))
              \<and> congradulation padded (this_year_date today (birthday_value b)) = Inr c
              \<and> e = \<lparr>contact_name = name_value (name r), congradulation_date = c\<rparr>"
  then obtain b c where b: "birthday r = Some b"
    and v: "valid_date (this_year_date today (birthday_value b))"
    and c: "congradulation padded (this_year_date today (birthday_value b)) = Inr c"
    and e: "e = \<lparr>contact_name = name_value (name r), congradulation_date = c\<rparr>"
    by blast
  let ?tyd = "this_year_date today (birthday_value b)"
  note p = congradulation_Inr [OF v c]
  have ce: "congradulation_date e = c" using e by simp
  have py: "padded \<or> 1000 \<le> year ?tyd" if "padded \<or> 1000 \<le> year today"
    using that this_year_date_year [of today "birthday_value b"] by linarith
  have "(if weekday ?tyd = 5 \<or> weekday ?tyd = 6
                  then \<exists>mon. date_add_days ?tyd (7 - weekday ?tyd) = Inr mon
                         \<and> toordinal mon = toordinal ?tyd + (7 - weekday ?tyd)
                         \<and> weekday mon = 0
                         \<and> congradulation_date e = strftime_dmY padded mon
                         \<and> (padded \<or> 1000 \<le> year today \<longrightarrow>
                              strptime_dmY (congradulation_date e) = Inr mon)
                  else congradulation_date e = strftime_dmY padded ?tyd
                         \<and> (padded \<or> 1000 \<le> year today \<longrightarrow>
                              strptime_dmY (congradulation_date e) = Inr ?tyd))
              \<and> (padded \<or> 1000 \<le> year today \<longrightarrow>
                   matches_DD_MM_YYYY (congradulation_date e))"
  proof (cases "weekday ?tyd = 5 \<or> weekday ?tyd = 6")
    case True
    with p obtain mon where m: "date_add_days ?tyd (7 - weekday ?tyd) = Inr mon"
      "valid_date mon" "toordinal mon = toordinal ?tyd + (7 - weekday ?tyd)"
      "weekday mon = 0" "c = strftime_dmY padded mon"
      by auto
    have le: "toordinal ?tyd \<le> toordinal mon" using m(3) True by auto
    have pm: "padded \<or> 1000 \<le> year mon" if "padded \<or> 1000 \<le> year today"
      using py [OF that] later_date_year [OF v m(2) le] by blast
    have "strptime_dmY c = Inr mon \<and> matches_DD_MM_YYYY c"
      if "padded \<or> 1000 \<le> year today"
      using format_then_parse [OF m(2) pm [OF that]] m(5) by simp
    then show ?thesis
      unfolding ce using True m by auto
  next
    case False
    with p have cc: "c = strftime_dmY padded ?tyd" by simp
    have "strptime_dmY c = Inr ?tyd \<and> matches_DD_MM_YYYY c"
      if "padded \<or> 1000 \<le> year today"
      using format_then_parse [OF v py [OF that]] cc by simp
    then show ?thesis
      unfolding ce using False cc by auto
  qed
  moreover have "contact_name e = name_value (name r)" using e by simp
  ultimately show "\<exists>b tyd. birthday r = Some b
              \<and> tyd = this_year_date today (birthday_value b)
              \<and> contact_name e = name_value (name r)
              \<and> (if weekday tyd = 5 \<or> weekday tyd = 6
                  then \<exists>mon. date_add_days tyd (7 - weekday tyd) = Inr mon
                         \<and> toordinal mon = toordinal tyd + (7 - weekday tyd)
                         \<and> weekday mon = 0
                         \<and> congradulation_date e = strftime_dmY padded mon
                         \<and> (padded \<or> 1000 \<le> year today \<longrightarrow>
                              strptime_dmY (congradulation_date e) = Inr mon)
                  else congradulation_date e = strftime_dmY padded tyd
                         \<and> (padded \<or> 1000 \<le> year today \<longrightarrow>
                              strptime_dmY (congradulation_date e) = Inr tyd))
              \<and> (padded \<or> 1000 \<le> year today \<longrightarrow>
                   matches_DD_MM_YYYY (congradulation_date e))"
    using b by blast
qed

lemma list_all2_rightD:
  "list_all2 P xs ys \<Longrightarrow> y \<in> set ys \<Longrightarrow> \<exists>x\<in>set xs. P x y"
  by (induction rule: list_all2_induct) auto

text \<open>
  C10: every entry of the result holds the text of a date that falls on a weekday
  from Monday (0) to Friday (4), never on a Saturday or a Sunday; the text reads back
  as that date when today's year is 1000 or later or the C library pads the year.
\<close>

theorem congratulation_never_on_weekend:
  assumes "get_upcoming_birthdays padded today book = Inr out"
  shows "list_all
           (\<lambda>e. \<exists>d. valid_date d \<and> congradulation_date e = strftime_dmY padded d
                  \<and> 0 \<le> weekday d \<and> weekday d \<le> 4
                  \<and> (padded \<or> 1000 \<le> year today \<longrightarrow>
                       strptime_dmY (congradulation_date e) = Inr d))
           out"
proof -
  have "\<exists>d. valid_date d \<and> congradulation_date e = strftime_dmY padded d
            \<and> 0 \<le> weekday d \<and> weekday d \<le> 4
            \<and> (padded \<or> 1000 \<le> year today \<longrightarrow>
                 strptime_dmY (congradulation_date e) = Inr d)"
    if "e \<in> set out" for e
  proof -
    from list_all2_rightD [OF upcoming_entries [OF assms] that]
    have "\<exists>b c. valid_date (this_year_date today (birthday_value b))
              \<and> congradulation padded (this_year_date today (birthday_value b)) = Inr c
              \<and> congradulation_date e = c"
      by (elim bexE exE conjE) auto
    then obtain b c where
      v: "valid_date (this_year_date today (birthday_value b))"
      and c: "congradulation padded (this_year_date today (birthday_value b)) = Inr c"
      and e: "congradulation_date e = c"
      by blast
    let ?tyd = "this_year_date today (birthday_value b)"
    note p = congradulation_Inr [OF v c]
    have py: "padded \<or> 1000 \<le> year ?tyd" if "padded \<or> 1000 \<le> year today"
      using that this_year_date_year [of today "birthday_value b"] by linarith
    show ?thesis
    proof (cases "weekday ?tyd = 5 \<or> weekday ?tyd = 6")
      case True
      with p obtain mon where m: "valid_date mon"
        "toordinal mon = toordinal ?tyd + (7 - weekday ?tyd)"
        "weekday mon = 0" "c = strftime_dmY padded mon"
        by auto
      have le: "toordinal ?tyd \<le> toordinal mon" using m(2) True by auto
      have "strptime_dmY c = Inr mon" if "padded \<or> 1000 \<le> year today"
        using format_then_parse(2) [OF m(1)] py [OF that] later_date_year [OF v m(1) le] m(4)
        by auto
      then show ?thesis using m e by auto
    next
      case False
      with p have cc: "c = strftime_dmY padded ?tyd" by simp
      have w: "0 \<le> weekday ?tyd \<and> weekday ?tyd \<le> 4"
        using weekday_range [of ?tyd] False by linarith
      have "strptime_dmY c = Inr ?tyd" if "padded \<or> 1000 \<le> year today"
        using format_then_parse(2) [OF v py [OF that]] cc by simp
      then show ?thesis using v cc w e by auto
    qed
  qed
  then show ?thesis by (simp add: list_all_iff)
qed

theorem congratulation_date_policy_witness:
  "get_upcoming_birthdays False \<lparr>year = 2024, month = 6, day = 10\<rparr>
     [(''sat'', \<lparr>name = Name ''sat'', phones = [],
                 birthday = Some (Birthday \<lparr>year = 1990, month = 6, day = 15\<rparr>)\<rparr>),
      (''wed'', \<lparr>name = Name ''wed'', phones = [],
                 birthday = Some (Birthday \<lparr>year = 1985, month = 6, day = 12\<rparr>)\<rparr>)]
     = Inr [\<lparr>contact_name = ''sat'', congradulation_date = ''17.06.2024''\<rparr>,
            \<lparr>contact_name = ''wed'', congradulation_date = ''12.06.2024''\<rparr>]
   \<and> list_all2
           (\<lambda>r e. \<exists>b tyd. birthday r = Some b
              \<and> tyd = this_year_date \<lparr>year = 2024, month = 6, day = 10\<rparr> (birthday_value b)
              \<and> contact_name e = name_value (name r)
              \<and> (if weekday tyd = 5 \<or> weekday tyd = 6
                  then \<exists>mon. date_add_days tyd (7 - weekday tyd) = Inr mon
                         \<and> toordinal mon = toordinal tyd + (7 - weekday tyd)
                         \<and> weekday mon = 0
                         \<and> congradulation_date e = strftime_dmY False mon
                         \<and> (False \<or> 1000 \<le> year \<lparr>year = 2024, month = 6, day = 10\<rparr> \<longrightarrow>
                              strptime_dmY (congradulation_date e) = Inr mon)
                  else congradulation_date e = strftime_dmY False tyd
                         \<and> (False \<or> 1000 \<le> year \<lparr>year = 2024, month = 6, day = 10\<rparr> \<longrightarrow>
                              strptime_dmY (congradulation_date e) = Inr tyd))
              \<and> (False \<or> 1000 \<le> year \<lparr>year = 2024, month = 6, day = 10\<rparr> \<longrightarrow>
                   matches_DD_MM_YYYY (congradulation_date e)))
           (filter (in_window \<lparr>year = 2024, month = 6, day = 10\<rparr>)
              (dict_values
                 [(''sat'', \<lparr>name = Name ''sat'', phones = [],
                      birthday = Some (Birthday \<lparr>year = 1990, month = 6, day = 15\<rparr>)\<rparr>),
                  (''wed'', \<lparr>name = Name ''wed'', phones = [],
                      birthday = Some (Birthday \<lparr>year = 1985, month = 6, day = 12\<rparr>)\<rparr>)]))
           [\<lparr>contact_name = ''sat'', congradulation_date = ''17.06.2024''\<rparr>,
            \<lparr>contact_name = ''wed'', congradulation_date = ''12.06.2024''\<rparr>]"
proof -
  have e: "get_upcoming_birthdays False \<lparr>year = 2024, month = 6, day = 10\<rparr>
     [(''sat'', \<lparr>name = Name ''sat'', phones = [],
                 birthday = Some (Birthday \<lparr>year = 1990, month = 6, day = 15\<rparr>)\<rparr>),
      (''wed'', \<lparr>name = Name ''wed'', phones = [],
                 birthday = Some (Birthday \<lparr>year = 1985, month = 6, day = 12\<rparr>)\<rparr>)]
     = Inr [\<lparr>contact_name = ''sat'', congradulation_date = ''17.06.2024''\<rparr>,
            \<lparr>contact_name = ''wed'', congradulation_date = ''12.06.2024''\<rparr>]"
    by code_simp
  show ?thesis
    by (rule conjI [OF e congratulation_date_policy [OF e]])
qed

theorem congratulation_never_on_weekend_witness:
  "get_upcoming_birthdays True \<lparr>year = 2025, month = 11, day = 28\<rparr>
     [(''sun'', \<lparr>name = Name ''sun'', phones = [Phone ''0501234567''],
                 birthday = Some (Birthday \<lparr>year = 2001, month = 11, day = 30\<rparr>)\<rparr>),
      (''fri'', \<lparr>name = Name ''fri'', phones = [],
                 birthday = Some (Birthday \<lparr>year = 1970, month = 12, day = 5\<rparr>)\<rparr>)]
     = Inr [\<lparr>contact_name = ''sun'', congradulation_date = ''01.12.2025''\<rparr>,
            \<lparr>contact_name = ''fri'', congradulation_date = ''05.12.2025''\<rparr>]
   \<and> list_all
           (\<lambda>e. \<exists>d. valid_date d \<and> congradulation_date e = strftime_dmY True d
                  \<and> 0 \<le> weekday d \<and> weekday d \<le> 4
                  \<and> (True \<or> 1000 \<le> year \<lparr>year = 2025, month = 11, day = 28\<rparr> \<longrightarrow>
                       strptime_dmY (congradulation_date e) = Inr d))
           [\<lparr>contact_name = ''sun'', congradulation_date = ''01.12.2025''\<rparr>,
            \<lparr>contact_name = ''fri'', congradulation_date = ''05.12.2025''\<rparr>]"
proof -
  have e: "get_upcoming_birthdays True \<lparr>year = 2025, month = 11, day = 28\<rparr>
     [(''sun'', \<lparr>name = Name ''sun'', phones = [Phone ''0501234567''],
                 birthday = Some (Birthday \<lparr>year = 2001, month = 11, day = 30\<rparr>)\<rparr>),
      (''fri'', \<lparr>name = Name ''fri'', phones = [],
                 birthday = Some (Birthday \<lparr>year = 1970, month = 12, day = 5\<rparr>)\<rparr>)]
     = Inr [\<lparr>contact_name = ''sun'', congradulation_date = ''01.12.2025''\<rparr>,
            \<lparr>contact_name = ''fri'', congradulation_date = ''05.12.2025''\<rparr>]"
    by code_simp
  show ?thesis
    by (rule conjI [OF e congratulation_never_on_weekend [OF e]])
qed

end
